theory Spec2Isabelle
  imports Main
begin

section \<open>Calendar dates\<close>

text \<open>
  The scheduling engine of \<^verbatim>\<open>recurringTransactionService\<close> (second part of
  \<^verbatim>\<open>src/models/transaction.ts\<close>) computes on JavaScript \<^verbatim>\<open>Date\<close> objects that it sets to
  local midnight (\<^verbatim>\<open>setHours(0, 0, 0, 0)\<close>), or to the last millisecond of the local day for
  an end date (\<^verbatim>\<open>setHours(23, 59, 59, 999)\<close>). Such an object is determined by its local
  calendar day, so it is embedded as the triple that \<^verbatim>\<open>getFullYear()\<close>, \<^verbatim>\<open>getMonth()\<close>
  (0 = January) and \<^verbatim>\<open>getDate()\<close> read.

  The database holds its dates as UTC midnights: the model layer stores
  \<^verbatim>\<open>new Date("YYYY-MM-DD")\<close> and \<^verbatim>\<open>new Date(Date.UTC(year, month - 1, day))\<close>. A stored
  date is embedded as the triple of its UTC calendar day. The two kinds of date meet in
  three places: where the service reads a stored date through \<^verbatim>\<open>setHours\<close> (\<open>fromStore\<close>
  below), where it writes the text of a local date (\<^verbatim>\<open>formatDateToString\<close>: the triple is
  stored as it is), and where it hands a local midnight to a query on stored dates or
  compares the two (\<open>localMidnight\<close> and \<open>utcMidnight\<close> below).

  \<^verbatim>\<open>getTime\<close> is the day number of a triple since 1970-01-01. Two local midnights compare as
  their day numbers, and so do two stored dates; comparing a local midnight with an end
  date at 23:59:59.999 local time is the same as comparing the two day numbers.

  The texts of dates have the form \<^verbatim>\<open>YYYY-MM-DD\<close>. The mapping of the years 0..99 to
  1900..1999 by the \<^verbatim>\<open>Date\<close> constructor and by \<^verbatim>\<open>Date.UTC\<close> is \<open>legacyYear\<close> where a date
  is built from the numbers of a text; the years of the dates of a series are four-digit
  years.
\<close>

record Date =
  year :: int
  month :: int
  day :: int

definition isLeapYear :: "int \<Rightarrow> bool" where
  "isLeapYear y = ((y mod 4 = 0 \<and> y mod 100 \<noteq> 0) \<or> y mod 400 = 0)"

definition daysInMonth :: "int \<Rightarrow> int \<Rightarrow> int" where
  "daysInMonth y m =
     (if m = 1 then (if isLeapYear y then 29 else 28)
      else if m = 3 \<or> m = 5 \<or> m = 8 \<or> m = 10 then 30
      else 31)"

definition dayFromYear :: "int \<Rightarrow> int" where
  "dayFromYear y =
     365 * (y - 1970) + (y - 1969) div 4 - (y - 1901) div 100 + (y - 1601) div 400"

definition daysBeforeMonth :: "int \<Rightarrow> int \<Rightarrow> int" where
  "daysBeforeMonth y m =
     (if m = 0 then 0
      else if m = 1 then 31
      else (if isLeapYear y then 1 else 0) +
        (if m = 2 then 59 else if m = 3 then 90 else if m = 4 then 120
         else if m = 5 then 151 else if m = 6 then 181 else if m = 7 then 212
         else if m = 8 then 243 else if m = 9 then 273 else if m = 10 then 304
         else 334))"

text \<open>ECMAScript's \<^verbatim>\<open>MakeDay(year, month, date)\<close>: any integers are accepted, months
  beyond 0..11 carry into the year and the day counts on from the first of the month.\<close>

definition makeDay :: "int \<Rightarrow> int \<Rightarrow> int \<Rightarrow> int" where
  "makeDay y m d = dayFromYear (y + m div 12) + daysBeforeMonth (y + m div 12) (m mod 12) + d - 1"

definition getTime :: "Date \<Rightarrow> int" where
  "getTime dt = makeDay (year dt) (month dt) (day dt)"

text \<open>\<^verbatim>\<open>getDay()\<close>: 0 = Sunday; 1970-01-01 was a Thursday.\<close>

definition getDay :: "Date \<Rightarrow> int" where
  "getDay dt = (getTime dt + 4) mod 7"

text \<open>A calendar date as the getters return it.\<close>

definition validDate :: "Date \<Rightarrow> bool" where
  "validDate dt =
     (0 \<le> month dt \<and> month dt \<le> 11 \<and> 1 \<le> day dt \<and> day dt \<le> daysInMonth (year dt) (month dt))"

text \<open>
  Reading the fields back after \<^verbatim>\<open>new Date(y, m, d)\<close>, \<^verbatim>\<open>setDate\<close>, \<^verbatim>\<open>setMonth\<close> or
  \<^verbatim>\<open>setFullYear\<close>: the day rolls over into the following months, or back into the
  preceding ones, until it lies inside its month.
\<close>

function normDay :: "int \<Rightarrow> int \<Rightarrow> int \<Rightarrow> Date" where
  "normDay y m d =
     (if d < 1 then
        (if m \<le> 0 then normDay (y - 1) 11 (d + daysInMonth (y - 1) 11)
         else normDay y (m - 1) (d + daysInMonth y (m - 1)))
      else if d > daysInMonth y m then
        (if m \<ge> 11 then normDay (y + 1) 0 (d - daysInMonth y m)
         else normDay y (m + 1) (d - daysInMonth y m))
      else \<lparr>year = y, month = m, day = d\<rparr>)"
  by pat_completeness auto
termination
  by (relation "measure (\<lambda>(y, m, d). if d < 1 then nat (1 - d) + 32 else nat d)")
     (auto simp: daysInMonth_def)

declare normDay.simps [simp del]

definition newDate :: "int \<Rightarrow> int \<Rightarrow> int \<Rightarrow> Date" where
  "newDate y m d = normDay (y + m div 12) (m mod 12) d"

subsection \<open>Stored dates and the time zone\<close>

text \<open>
  \<open>tz\<close> is the offset of the local time of the process from UTC in minutes: 0 in UTC, 120
  in a zone two hours east of it, -300 in a zone five hours west of it. The zone keeps its
  offset over the dates concerned and is less than a day away from UTC. Instants are
  counted in minutes since 1970-01-01T00:00Z: a stored date lies at the UTC midnight of its
  day, a date of the service at the local midnight of its day.
\<close>

definition utcMidnight :: "Date \<Rightarrow> int" where
  "utcMidnight stored = 1440 * getTime stored"

definition localMidnight :: "int \<Rightarrow> Date \<Rightarrow> int" where
  "localMidnight tz d = 1440 * getTime d - tz"

text \<open>
  \<^verbatim>\<open>const d = new Date(stored); d.setHours(0, 0, 0, 0)\<close>, and the day of
  \<^verbatim>\<open>d.setHours(23, 59, 59, 999)\<close>: the local calendar day on which the UTC midnight of a
  stored date falls. In UTC and east of it that is the stored day, west of UTC it is the
  day before.
\<close>

definition fromStore :: "int \<Rightarrow> Date \<Rightarrow> Date" where
  "fromStore tz stored =
     (if tz < 0 then newDate (year stored) (month stored) (day stored - 1) else stored)"

text \<open>The year that \<^verbatim>\<open>new Date(year, monthIndex, day)\<close> and \<^verbatim>\<open>Date.UTC(year, monthIndex, day)\<close>
  take for their first argument.\<close>

definition legacyYear :: "int \<Rightarrow> int" where
  "legacyYear y = (if 0 \<le> y \<and> y \<le> 99 then 1900 + y else y)"

datatype FrequencyType = Daily | Weekly | Monthly | Yearly

section \<open>OccurrencePolicy\<close>

text \<open>\<^verbatim>\<open>calculateNextOccurrence(currentDate, frequency)\<close>.\<close>

fun calculateNextOccurrence :: "Date \<Rightarrow> FrequencyType \<Rightarrow> Date" where
  "calculateNextOccurrence currentDate Daily =
     newDate (year currentDate) (month currentDate) (day currentDate + 1)"
| "calculateNextOccurrence currentDate Weekly =
     newDate (year currentDate) (month currentDate) (day currentDate + 7)"
| "calculateNextOccurrence currentDate Monthly =
     newDate (year currentDate) (month currentDate + 1) (day currentDate)"
| "calculateNextOccurrence currentDate Yearly =
     newDate (year currentDate + 1) (month currentDate) (day currentDate)"

text \<open>\<^verbatim>\<open>getPreviousDay(date)\<close>.\<close>

definition getPreviousDay :: "Date \<Rightarrow> Date" where
  "getPreviousDay dt = newDate (year dt) (month dt) (day dt - 1)"

text \<open>The \<^verbatim>\<open>recurring\<close> argument of the two policy functions: start date, optional end
  date and frequency.\<close>

record Recurrence =
  startDate :: Date
  endDate :: "Date option"
  frequency :: FrequencyType

text \<open>\<^verbatim>\<open>endDate && checkDate > endDate\<close>\<close>

definition afterEnd :: "Date \<Rightarrow> Date option \<Rightarrow> bool" where
  "afterEnd checkDate e = (case e of None \<Rightarrow> False | Some ed \<Rightarrow> getTime checkDate > getTime ed)"

text \<open>\<^verbatim>\<open>isDateValidOccurrence(date, recurring)\<close>.\<close>

definition isDateValidOccurrence :: "Date \<Rightarrow> 'a Recurrence_scheme \<Rightarrow> bool" where
  "isDateValidOccurrence checkDate recurring =
     (if getTime checkDate < getTime (startDate recurring) then False
      else if afterEnd checkDate (endDate recurring) then False
      else (case frequency recurring of
          Daily \<Rightarrow> True
        | Weekly \<Rightarrow>
            (if getDay checkDate \<noteq> getDay (startDate recurring) then False
             else let daysDiff = getTime checkDate - getTime (startDate recurring)
                  in daysDiff \<ge> 0 \<and> daysDiff mod 7 = 0)
        | Monthly \<Rightarrow>
            (let startDay = day (startDate recurring); checkDay = day checkDate in
             if startDay > 28 then
               (let lastDayOfMonth = day (newDate (year checkDate) (month checkDate + 1) 0)
                in checkDay = min startDay lastDayOfMonth)
             else checkDay = startDay)
        | Yearly \<Rightarrow>
            (if month (startDate recurring) = 1 \<and> day (startDate recurring) = 29 then
               (if month checkDate = 1 then
                  (if isLeapYear (year checkDate) then day checkDate = 29
                   else day checkDate = 28)
                else False)
             else month checkDate = month (startDate recurring) \<and>
                  day checkDate = day (startDate recurring))))"

text \<open>
  \<^verbatim>\<open>findNextValidOccurrence(currentDate, recurring, maxIterations = 100)\<close>. The loop

  \<^verbatim>\<open>while (iterations < maxIterations) { ...; checkDate = nextDate; iterations++ }\<close>

  is the recursion \<open>findLoop\<close> on the pair (\<^verbatim>\<open>checkDate\<close>, \<^verbatim>\<open>iterations\<close>); \<^verbatim>\<open>null\<close> is
  \<open>None\<close>.
\<close>

function findLoop :: "'a Recurrence_scheme \<Rightarrow> int \<Rightarrow> Date \<Rightarrow> int \<Rightarrow> Date option" where
  "findLoop recurring maxIterations checkDate iterations =
     (if iterations < maxIterations then
        (if isDateValidOccurrence checkDate recurring then Some checkDate
         else let nextDate = calculateNextOccurrence checkDate (frequency recurring) in
           if afterEnd nextDate (endDate recurring) then None
           else if getTime nextDate \<le> getTime checkDate then None
           else findLoop recurring maxIterations nextDate (iterations + 1))
      else None)"
  by pat_completeness auto
termination
  by (relation "measure (\<lambda>(recurring, maxIterations, checkDate, iterations).
        nat (maxIterations - iterations))") auto

declare findLoop.simps [simp del]

definition findNextValidOccurrence :: "Date \<Rightarrow> 'a Recurrence_scheme \<Rightarrow> int \<Rightarrow> Date option" where
  "findNextValidOccurrence currentDate recurring maxIterations =
     (let checkDate = (if getTime currentDate < getTime (startDate recurring)
                       then startDate recurring else currentDate)
      in if afterEnd checkDate (endDate recurring) then None
         else findLoop recurring maxIterations checkDate 0)"


text \<open>The dates that the search walks through: \<open>iterNext recurring k d\<close> is \<open>d\<close> after \<open>k\<close>
  applications of \<^verbatim>\<open>calculateNextOccurrence\<close>, and \<open>clampToStart\<close> is the first
  assignment of \<^verbatim>\<open>findNextValidOccurrence\<close> (a date before the start date is replaced by
  the start date).\<close>

primrec iterNext :: "'a Recurrence_scheme \<Rightarrow> nat \<Rightarrow> Date \<Rightarrow> Date" where
  "iterNext recurring 0 d = d"
| "iterNext recurring (Suc k) d =
     iterNext recurring k (calculateNextOccurrence d (frequency recurring))"

definition clampToStart :: "Date \<Rightarrow> 'a Recurrence_scheme \<Rightarrow> Date" where
  "clampToStart currentDate recurring =
     (if getTime currentDate < getTime (startDate recurring) then startDate recurring
      else currentDate)"

text \<open>One full pass of the search loop at the \<open>j\<close>-th date of the chain: that date is
  not an occurrence, and the next one is neither past the end date nor stuck.\<close>

definition chainStep :: "'a Recurrence_scheme \<Rightarrow> Date \<Rightarrow> nat \<Rightarrow> bool" where
  "chainStep recurring c j =
     (\<not> isDateValidOccurrence (iterNext recurring j c) recurring \<and>
      \<not> afterEnd (iterNext recurring (Suc j) c) (endDate recurring) \<and>
      getTime (iterNext recurring j c) < getTime (iterNext recurring (Suc j) c))"

text \<open>
  The \<^verbatim>\<open>recurring\<close> argument that the service hands to the two policy functions for a row
  of the store, \<^verbatim>\<open>{startDate: new Date(recurring.startDate), endDate: recurring.endDate ?
  new Date(recurring.endDate) : null, frequency: recurring.frequency}\<close>, after the functions
  have set its dates to local midnight and to the end of the local day.
\<close>

definition localRecurrence :: "int \<Rightarrow> 'a Recurrence_scheme \<Rightarrow> Recurrence" where
  "localRecurrence tz recurring =
     \<lparr>startDate = fromStore tz (startDate recurring),
      endDate = map_option (fromStore tz) (endDate recurring),
      frequency = frequency recurring\<rparr>"

section \<open>The store\<close>

text \<open>
  The two Prisma tables the engine reads and writes. Identifiers are UUIDs generated by the
  database; here they are natural numbers drawn from a counter of the store. The rows of a
  series carry the three policy fields of \<open>Recurrence\<close>. (\<^verbatim>\<open>id\<close> and \<^verbatim>\<open>type\<close> are
  \<open>ident\<close> and \<open>txType\<close>; the fields of a ledger entry that share a name with a field of
  a series are prefixed with \<open>t_\<close>, those of an update with \<open>u_\<close>.)
\<close>

datatype TransactionType = Income | Expense

record RecurringTransaction = Recurrence +
  ident :: nat
  userId :: string
  categoryId :: string
  amount :: int
  txType :: TransactionType
  description :: "string option"
  nextOccurrence :: Date
  isActive :: bool

record CreateTransactionInput =
  t_userId :: string
  t_categoryId :: string
  t_amount :: int
  t_type :: TransactionType
  t_description :: "string option"
  date :: Date
  recurringTransactionId :: "nat option"
  isOverride :: bool

record Transaction = CreateTransactionInput +
  t_id :: nat

record Store =
  recurringTransactions :: "RecurringTransaction list"
  transactions :: "Transaction list"
  nextId :: nat

text \<open>\<^verbatim>\<open>UpdateRecurringTransactionInput\<close>, also the \<^verbatim>\<open>updates\<close> argument of the scoped edit: a
  field that is \<^verbatim>\<open>undefined\<close> is \<open>None\<close>; for the two nullable fields \<open>Some None\<close> is
  \<^verbatim>\<open>null\<close>.\<close>

record UpdateRecurringTransactionInput =
  u_categoryId :: "string option"
  u_amount :: "int option"
  u_type :: "TransactionType option"
  u_description :: "string option option"
  u_frequency :: "FrequencyType option"
  u_startDate :: "Date option"
  u_endDate :: "Date option option"
  u_nextOccurrence :: "Date option"
  u_isActive :: "bool option"

definition noUpdate :: UpdateRecurringTransactionInput where
  "noUpdate = \<lparr>u_categoryId = None, u_amount = None, u_type = None, u_description = None,
     u_frequency = None, u_startDate = None, u_endDate = None, u_nextOccurrence = None,
     u_isActive = None\<rparr>"

datatype error =
    InvalidDateFormat
  | RecurringTransactionNotFound
  | EffectiveDateBeforeStart
  | EffectiveDateAfterEnd
  | InvalidScope
  | CreateRejected

subsection \<open>\<^verbatim>\<open>models/recurringTransaction.ts\<close>\<close>

definition getRecurringTransactionById :: "nat \<Rightarrow> Store \<Rightarrow> RecurringTransaction option" where
  "getRecurringTransactionById i st = find (\<lambda>r. ident r = i) (recurringTransactions st)"

text \<open>\<^verbatim>\<open>getDueRecurringTransactions(date)\<close>: active, due on or before the date, not ended before
  it; ordered by \<^verbatim>\<open>nextOccurrence\<close>.\<close>

definition getDueRecurringTransactions :: "Date \<Rightarrow> Store \<Rightarrow> RecurringTransaction list" where
  "getDueRecurringTransactions dateObj st =
     sort_key (\<lambda>r. getTime (nextOccurrence r))
       (filter (\<lambda>r. isActive r \<and> getTime (nextOccurrence r) \<le> getTime dateObj \<and>
                    (case endDate r of None \<Rightarrow> True
                     | Some e \<Rightarrow> getTime e \<ge> getTime dateObj))
          (recurringTransactions st))"

text \<open>Only the fields that are defined in the input are written.\<close>

definition applyUpdate :: "UpdateRecurringTransactionInput \<Rightarrow> RecurringTransaction \<Rightarrow> RecurringTransaction" where
  "applyUpdate input r =
     r\<lparr>categoryId := (case u_categoryId input of None \<Rightarrow> categoryId r | Some c \<Rightarrow> c),
       amount := (case u_amount input of None \<Rightarrow> amount r | Some a \<Rightarrow> a),
       txType := (case u_type input of None \<Rightarrow> txType r | Some t \<Rightarrow> t),
       description := (case u_description input of None \<Rightarrow> description r | Some d \<Rightarrow> d),
       frequency := (case u_frequency input of None \<Rightarrow> frequency r | Some f \<Rightarrow> f),
       startDate := (case u_startDate input of None \<Rightarrow> startDate r | Some d \<Rightarrow> d),
       endDate := (case u_endDate input of None \<Rightarrow> endDate r | Some e \<Rightarrow> e),
       nextOccurrence := (case u_nextOccurrence input of None \<Rightarrow> nextOccurrence r | Some d \<Rightarrow> d),
       isActive := (case u_isActive input of None \<Rightarrow> isActive r | Some b \<Rightarrow> b)\<rparr>"

definition updateRecurringTransaction :: "nat \<Rightarrow> UpdateRecurringTransactionInput \<Rightarrow> Store \<Rightarrow> Store" where
  "updateRecurringTransaction i input st =
     st\<lparr>recurringTransactions :=
          map (\<lambda>r. if ident r = i then applyUpdate input r else r) (recurringTransactions st)\<rparr>"

text \<open>\<^verbatim>\<open>createRecurringTransaction(input)\<close>: the row is stored under a fresh identifier; an
  empty description is stored as \<^verbatim>\<open>null\<close>.\<close>

definition createRecurringTransaction :: "RecurringTransaction \<Rightarrow> Store \<Rightarrow> RecurringTransaction \<times> Store" where
  "createRecurringTransaction input st =
     (let row = input\<lparr>ident := nextId st,
                      description := (case description input of Some [] \<Rightarrow> None | d \<Rightarrow> d)\<rparr>
      in (row, st\<lparr>recurringTransactions := recurringTransactions st @ [row],
                  nextId := nextId st + 1\<rparr>))"

text \<open>\<^verbatim>\<open>deleteRecurringTransaction(id)\<close> of the model layer. The relation of a ledger entry
  to its series is declared \<^verbatim>\<open>onDelete: SetNull\<close> (the scope documentation of the
  repository says so; the schema file itself is not among the sources), so the entries stay
  and lose their back-reference.\<close>

definition deleteRecurringTransactionRow :: "nat \<Rightarrow> Store \<Rightarrow> Store" where
  "deleteRecurringTransactionRow i st =
     st\<lparr>recurringTransactions := filter (\<lambda>r. ident r \<noteq> i) (recurringTransactions st),
        transactions := map (\<lambda>t. if recurringTransactionId t = Some i
                                   then t\<lparr>recurringTransactionId := None\<rparr> else t)
                          (transactions st)\<rparr>"

subsection \<open>\<^verbatim>\<open>models/transaction.ts\<close>\<close>

text \<open>\<^verbatim>\<open>createTransaction(input)\<close>. The \<^verbatim>\<open>date\<close> of the input is a text in the source, stored
  as \<^verbatim>\<open>Date.UTC(year, month - 1, day)\<close> of its numbers; here it is the calendar day of that
  UTC midnight. The database can reject the row (a category or user that is gone); when it
  does is decided by the schema and the other tables, which are not part of the sources,
  so the condition is the parameter \<open>rejects\<close>.\<close>

definition createTransaction ::
  "(CreateTransactionInput \<Rightarrow> bool) \<Rightarrow> CreateTransactionInput \<Rightarrow> Store \<Rightarrow> error + Store" where
  "createTransaction rejects input st =
     (if rejects input then Inl CreateRejected
      else Inr (st\<lparr>transactions := transactions st @
                   [\<lparr>t_userId = t_userId input, t_categoryId = t_categoryId input,
                     t_amount = t_amount input, t_type = t_type input,
                     t_description = (case t_description input of Some [] \<Rightarrow> None | d \<Rightarrow> d),
                     date = date input,
                     recurringTransactionId = recurringTransactionId input,
                     isOverride = isOverride input, t_id = nextId st\<rparr>],
                 nextId := nextId st + 1\<rparr>))"

text \<open>\<^verbatim>\<open>updateTransaction(id, input)\<close> as the scoped edit calls it, with every field of the
  input defined (the owner is not a field of the update).\<close>

definition updateTransaction :: "nat \<Rightarrow> CreateTransactionInput \<Rightarrow> Store \<Rightarrow> Store" where
  "updateTransaction i input st =
     st\<lparr>transactions :=
          map (\<lambda>t. if t_id t = i
                    then t\<lparr>t_categoryId := t_categoryId input, t_amount := t_amount input,
                           t_type := t_type input, t_description := t_description input,
                           date := date input,
                           recurringTransactionId := recurringTransactionId input,
                           isOverride := isOverride input\<rparr>
                    else t)
              (transactions st)\<rparr>"

definition deleteTransaction :: "nat \<Rightarrow> Store \<Rightarrow> Store" where
  "deleteTransaction i st = st\<lparr>transactions := filter (\<lambda>t. t_id t \<noteq> i) (transactions st)\<rparr>"

text \<open>
  The \<^verbatim>\<open>prisma.transaction.findFirst\<close> queries of the service. Generation asks for an
  entry of the owner that refers to the series and whose \<^verbatim>\<open>date\<close> is the \<^verbatim>\<open>Date\<close> object it
  stands on, a local midnight; the first of its two queries also asks for
  \<^verbatim>\<open>isOverride: true\<close>. The scoped edit and delete ask for an entry whose \<^verbatim>\<open>date\<close> lies
  between the local midnight of the effective date and 23:59:59.999 of that local day.
\<close>

definition findOverride :: "int \<Rightarrow> string \<Rightarrow> Date \<Rightarrow> nat \<Rightarrow> Store \<Rightarrow> Transaction option" where
  "findOverride tz uid d rid st =
     find (\<lambda>t. t_userId t = uid \<and> utcMidnight (date t) = localMidnight tz d \<and>
               recurringTransactionId t = Some rid \<and> isOverride t) (transactions st)"

definition findEntry :: "int \<Rightarrow> string \<Rightarrow> Date \<Rightarrow> nat \<Rightarrow> Store \<Rightarrow> Transaction option" where
  "findEntry tz uid d rid st =
     find (\<lambda>t. t_userId t = uid \<and> utcMidnight (date t) = localMidnight tz d \<and>
               recurringTransactionId t = Some rid) (transactions st)"

definition findInDay :: "int \<Rightarrow> string \<Rightarrow> Date \<Rightarrow> nat \<Rightarrow> Store \<Rightarrow> Transaction option" where
  "findInDay tz uid d rid st =
     find (\<lambda>t. t_userId t = uid \<and>
               localMidnight tz d \<le> utcMidnight (date t) \<and>
               utcMidnight (date t) \<le> localMidnight tz d + 1439 \<and>
               recurringTransactionId t = Some rid) (transactions st)"

section \<open>SeriesEditor and SeriesDeleter\<close>

text \<open>
  The effective date arrives as the text \<^verbatim>\<open>YYYY-MM-DD\<close>; \<open>parts\<close> is the result of
  \<^verbatim>\<open>effectiveDate.split('-').map(Number)\<close>, with \<open>None\<close> for \<^verbatim>\<open>NaN\<close>. \<open>parseDate\<close> is
  \<^verbatim>\<open>new Date(year, month - 1, day)\<close> on the three numbers, a local midnight. Where the source
  hands the text itself to \<^verbatim>\<open>createTransaction\<close> or \<^verbatim>\<open>updateTransaction\<close>, these store
  \<^verbatim>\<open>Date.UTC(year, month - 1, day)\<close>, the same triple. Where it hands the text to the model
  layer of the series, that layer stores \<^verbatim>\<open>new Date(text)\<close>, which reads the year as it is
  written: \<open>dateOfText\<close>. (A text whose month or day is out of range makes an invalid
  \<^verbatim>\<open>Date\<close> there; such texts are outside the model.)

  Both operations return the store as they leave it together with their outcome, so that a
  failure after a write would show.
\<close>

definition parseDate :: "int option list \<Rightarrow> error + Date" where
  "parseDate parts =
     (case parts of
        [Some y, Some m, Some d] \<Rightarrow> Inr (newDate (legacyYear y) (m - 1) d)
      | _ \<Rightarrow> Inl InvalidDateFormat)"

definition dateOfText :: "int option list \<Rightarrow> error + Date" where
  "dateOfText parts =
     (case parts of
        [Some y, Some m, Some d] \<Rightarrow> Inr (newDate y (m - 1) d)
      | _ \<Rightarrow> Inl InvalidDateFormat)"

record EditResult =
  recurringTransaction :: "RecurringTransaction option"
  newRecurringTransaction :: "RecurringTransaction option"

record DeleteResult =
  deleted :: bool

text \<open>The two range checks that both operations make before they look at the scope.\<close>

definition checkEffectiveDate :: "int \<Rightarrow> Date \<Rightarrow> RecurringTransaction \<Rightarrow> error option" where
  "checkEffectiveDate tz effectiveDateObj existing =
     (let startDate' = fromStore tz (startDate existing);
          endDate' = map_option (fromStore tz) (endDate existing)
      in if getTime effectiveDateObj < getTime startDate' then Some EffectiveDateBeforeStart
         else if afterEnd effectiveDateObj endDate' then Some EffectiveDateAfterEnd
         else None)"

definition editRecurringTransaction ::
  "int \<Rightarrow> (CreateTransactionInput \<Rightarrow> bool) \<Rightarrow> nat \<Rightarrow> int option list \<Rightarrow> string \<Rightarrow>
   UpdateRecurringTransactionInput \<Rightarrow> Store \<Rightarrow> Store \<times> (error + EditResult)" where
  "editRecurringTransaction tz rejects recurringTransactionId' effectiveDate scope updates st =
     (case parseDate effectiveDate of
        Inl e \<Rightarrow> (st, Inl e)
      | Inr effectiveDateObj \<Rightarrow>
     (case getRecurringTransactionById recurringTransactionId' st of
        None \<Rightarrow> (st, Inl RecurringTransactionNotFound)
      | Some existing \<Rightarrow>
     (case checkEffectiveDate tz effectiveDateObj existing of
        Some e \<Rightarrow> (st, Inl e)
      | None \<Rightarrow>
     if scope = ''single'' then
       (let existingTransaction =
              findInDay tz (userId existing) effectiveDateObj recurringTransactionId' st;
            transactionData =
              \<lparr>t_userId = userId existing,
               t_categoryId = (case u_categoryId updates of
                                 Some c \<Rightarrow> if c = [] then categoryId existing else c
                               | None \<Rightarrow> categoryId existing),
               t_amount = (case u_amount updates of Some a \<Rightarrow> a | None \<Rightarrow> amount existing),
               t_type = (case u_type updates of Some t \<Rightarrow> t | None \<Rightarrow> txType existing),
               t_description = (case u_description updates of
                                  Some d \<Rightarrow> d | None \<Rightarrow> description existing),
               date = effectiveDateObj,
               recurringTransactionId = Some recurringTransactionId',
               isOverride = True\<rparr>
        in case existingTransaction of
             Some t \<Rightarrow>
               (updateTransaction (t_id t) transactionData st,
                Inr \<lparr>recurringTransaction = Some existing, newRecurringTransaction = None\<rparr>)
           | None \<Rightarrow>
               (case createTransaction rejects transactionData st of
                  Inl e \<Rightarrow> (st, Inl e)
                | Inr st' \<Rightarrow>
                    (st', Inr \<lparr>recurringTransaction = Some existing,
                               newRecurringTransaction = None\<rparr>)))
     else if scope = ''future'' then
       (let previousDay = getPreviousDay effectiveDateObj;
            st1 = updateRecurringTransaction recurringTransactionId'
                    (noUpdate\<lparr>u_endDate := Some (Some previousDay)\<rparr>) st;
            newFrequency = (case u_frequency updates of
                              Some f \<Rightarrow> f | None \<Rightarrow> frequency existing);
            newNextOccurrence = calculateNextOccurrence effectiveDateObj newFrequency
        in case dateOfText effectiveDate of
             Inl e \<Rightarrow> (st1, Inl e)
           | Inr newStartDate \<Rightarrow>
        let (newRecurringTransaction', st2) =
              createRecurringTransaction
                \<lparr>startDate = newStartDate,
                 endDate = (case u_endDate updates of Some (Some e) \<Rightarrow> Some e | _ \<Rightarrow> None),
                 frequency = newFrequency,
                 ident = 0,
                 userId = userId existing,
                 categoryId = (case u_categoryId updates of
                                 Some c \<Rightarrow> if c = [] then categoryId existing else c
                               | None \<Rightarrow> categoryId existing),
                 amount = (case u_amount updates of Some a \<Rightarrow> a | None \<Rightarrow> amount existing),
                 txType = (case u_type updates of Some t \<Rightarrow> t | None \<Rightarrow> txType existing),
                 description = (case u_description updates of
                                  Some d \<Rightarrow> d | None \<Rightarrow> description existing),
                 nextOccurrence = newNextOccurrence,
                 isActive = (case u_isActive updates of
                               Some b \<Rightarrow> b | None \<Rightarrow> isActive existing)\<rparr> st1;
            updatedOriginal = getRecurringTransactionById recurringTransactionId' st2
        in (st2, Inr \<lparr>recurringTransaction = updatedOriginal,
                      newRecurringTransaction = Some newRecurringTransaction'\<rparr>))
     else if scope = ''all'' then
       (let updateData =
              noUpdate\<lparr>u_categoryId := u_categoryId updates, u_amount := u_amount updates,
                u_type := u_type updates, u_description := u_description updates,
                u_frequency := u_frequency updates,
                u_nextOccurrence :=
                  (case u_frequency updates of
                     Some f \<Rightarrow>
                       Some (calculateNextOccurrence (fromStore tz (nextOccurrence existing)) f)
                   | None \<Rightarrow> None),
                u_endDate := u_endDate updates, u_isActive := u_isActive updates\<rparr>;
            st' = updateRecurringTransaction recurringTransactionId' updateData st
        in (st', Inr \<lparr>recurringTransaction = getRecurringTransactionById recurringTransactionId' st',
                      newRecurringTransaction = None\<rparr>))
     else (st, Inl InvalidScope))))"

definition deleteRecurringTransaction ::
  "int \<Rightarrow> nat \<Rightarrow> int option list \<Rightarrow> string \<Rightarrow> Store \<Rightarrow> Store \<times> (error + DeleteResult)" where
  "deleteRecurringTransaction tz recurringTransactionId' effectiveDate scope st =
     (case parseDate effectiveDate of
        Inl e \<Rightarrow> (st, Inl e)
      | Inr effectiveDateObj \<Rightarrow>
     (case getRecurringTransactionById recurringTransactionId' st of
        None \<Rightarrow> (st, Inl RecurringTransactionNotFound)
      | Some existing \<Rightarrow>
     (case checkEffectiveDate tz effectiveDateObj existing of
        Some e \<Rightarrow> (st, Inl e)
      | None \<Rightarrow>
     if scope = ''single'' then
       (case findInDay tz (userId existing) effectiveDateObj recurringTransactionId' st of
          Some t \<Rightarrow> (deleteTransaction (t_id t) st, Inr \<lparr>deleted = False\<rparr>)
        | None \<Rightarrow> (st, Inr \<lparr>deleted = False\<rparr>))
     else if scope = ''future'' then
       (let previousDay = getPreviousDay effectiveDateObj
        in (updateRecurringTransaction recurringTransactionId'
              (noUpdate\<lparr>u_endDate := Some (Some previousDay)\<rparr>) st,
            Inr \<lparr>deleted = False\<rparr>))
     else if scope = ''all'' then
       (deleteRecurringTransactionRow recurringTransactionId' st, Inr \<lparr>deleted = True\<rparr>)
     else (st, Inl InvalidScope))))"

section \<open>GenerationEngine\<close>

text \<open>The result of \<^verbatim>\<open>processDateForRecurring\<close>.\<close>

record ProcessResult =
  p_created :: bool
  p_skipped :: bool
  p_nextOccurrence :: "Date option"

text \<open>
  \<^verbatim>\<open>processDateForRecurring(date, recurring, dateStr)\<close>: \<^verbatim>\<open>date\<close> is a local midnight,
  \<^verbatim>\<open>recurring\<close> the row of the store and \<^verbatim>\<open>dateStr\<close> the text of \<^verbatim>\<open>date\<close>, which
  \<^verbatim>\<open>createTransaction\<close> stores. The \<^verbatim>\<open>try\<close>/\<^verbatim>\<open>catch\<close> around \<^verbatim>\<open>createTransaction\<close> is the
  case distinction on its result.
\<close>

definition processDateForRecurring ::
  "int \<Rightarrow> (CreateTransactionInput \<Rightarrow> bool) \<Rightarrow> Date \<Rightarrow> RecurringTransaction \<Rightarrow> Store \<Rightarrow>
   ProcessResult \<times> Store" where
  "processDateForRecurring tz rejects date' recurring st =
     (if \<not> isDateValidOccurrence date' (localRecurrence tz recurring) then
        (let nextValid = findNextValidOccurrence date' (localRecurrence tz recurring) 100
         in (\<lparr>p_created = False, p_skipped = True, p_nextOccurrence = nextValid\<rparr>, st))
      else if findOverride tz (userId recurring) date' (ident recurring) st \<noteq> None then
        (\<lparr>p_created = False, p_skipped = True,
          p_nextOccurrence = Some (calculateNextOccurrence date' (frequency recurring))\<rparr>, st)
      else if findEntry tz (userId recurring) date' (ident recurring) st \<noteq> None then
        (\<lparr>p_created = False, p_skipped = True,
          p_nextOccurrence = Some (calculateNextOccurrence date' (frequency recurring))\<rparr>, st)
      else
        (case createTransaction rejects
                \<lparr>t_userId = userId recurring, t_categoryId = categoryId recurring,
                 t_amount = amount recurring, t_type = txType recurring,
                 t_description = description recurring, date = date',
                 recurringTransactionId = Some (ident recurring), isOverride = False\<rparr> st of
           Inr st' \<Rightarrow>
             (\<lparr>p_created = True, p_skipped = False,
               p_nextOccurrence = Some (calculateNextOccurrence date' (frequency recurring))\<rparr>, st')
         | Inl e \<Rightarrow>
             (\<lparr>p_created = False, p_skipped = True,
               p_nextOccurrence = Some (calculateNextOccurrence date' (frequency recurring))\<rparr>, st)))"

text \<open>
  What \<^verbatim>\<open>generateTransactionsFromRecurring\<close> carries from one series to the next: its two
  counters, the store, and the console: \<open>warnings\<close> lists the series for which the
  catch-up limit warning was printed.
\<close>

record GenState =
  created :: int
  skipped :: int
  store :: Store
  warnings :: "nat list"

text \<open>The variables of the catch-up loop.\<close>

record WalkState = GenState +
  currentDate :: Date
  lastProcessedDate :: "Date option"
  processedCount :: int

text \<open>One pass through the body of the catch-up loop, up to and including
  \<^verbatim>\<open>processedCount++\<close>. \<open>False\<close> in the second component is a \<^verbatim>\<open>break\<close>.
  \<^verbatim>\<open>recurringStartDate\<close> and \<^verbatim>\<open>recurringEndDate\<close> are the local readings of the dates of
  the row.\<close>

definition walkBody ::
  "int \<Rightarrow> (CreateTransactionInput \<Rightarrow> bool) \<Rightarrow> RecurringTransaction \<Rightarrow> WalkState \<Rightarrow>
   WalkState \<times> bool" where
  "walkBody tz rejects recurring s =
     (let recurringStartDate = fromStore tz (startDate recurring);
          recurringEndDate = map_option (fromStore tz) (endDate recurring)
      in if afterEnd (currentDate s) recurringEndDate then (s, False)
      else
        (let cur = (if getTime (currentDate s) < getTime recurringStartDate
                    then recurringStartDate else currentDate s);
             (result, st') = processDateForRecurring tz rejects cur recurring (store s);
             s1 = (if p_created result
                   then s\<lparr>currentDate := cur, store := st', created := created s + 1,
                          lastProcessedDate := Some cur\<rparr>
                   else s\<lparr>currentDate := cur, store := st', skipped := skipped s + 1\<rparr>)
         in case p_nextOccurrence result of
              None \<Rightarrow> (s1, False)
            | Some nxt \<Rightarrow>
                (s1\<lparr>currentDate := nxt, processedCount := processedCount s + 1\<rparr>, True)))"

text \<open>
  \<^verbatim>\<open>while (currentDate <= effectiveEndDate && processedCount < maxProcessDates) { ... }\<close>
  with the limit check at the end of the body, which prints the warning and leaves the loop.
\<close>

function walk ::
  "int \<Rightarrow> (CreateTransactionInput \<Rightarrow> bool) \<Rightarrow> RecurringTransaction \<Rightarrow> Date \<Rightarrow> int \<Rightarrow>
   WalkState \<Rightarrow> WalkState" where
  "walk tz rejects recurring effectiveEndDate maxProcessDates s =
     (if getTime (currentDate s) \<le> getTime effectiveEndDate \<and> processedCount s < maxProcessDates
      then
        (case walkBody tz rejects recurring s of
           (s', False) \<Rightarrow> s'
         | (s', True) \<Rightarrow>
             if processedCount s' \<ge> maxProcessDates
             then s'\<lparr>warnings := warnings s' @ [ident recurring]\<rparr>
             else walk tz rejects recurring effectiveEndDate maxProcessDates s')
      else s)"
  by pat_completeness auto
termination
  by (relation "measure (\<lambda>(tz, rejects, recurring, effectiveEndDate, maxProcessDates, s).
          nat (maxProcessDates - processedCount s))")
     (auto simp: walkBody_def Let_def split: if_splits prod.splits option.splits)

declare walk.simps [simp del]

text \<open>
  The variable \<^verbatim>\<open>nextOccurrenceToStore\<close>, computed after the loop from its variables;
  \<^verbatim>\<open>null\<close> is \<open>None\<close>. Its comparison of \<^verbatim>\<open>currentDate.getTime()\<close> with
  \<^verbatim>\<open>new Date(recurring.nextOccurrence).getTime()\<close> is one of a local midnight with the stored
  UTC midnight.
\<close>

definition nextOccurrenceToStore ::
  "int \<Rightarrow> RecurringTransaction \<Rightarrow> Date \<Rightarrow> WalkState \<Rightarrow> Date option" where
  "nextOccurrenceToStore tz recurring effectiveEndDate s =
     (case lastProcessedDate s of
        Some lastProcessed \<Rightarrow>
          (let calculatedNext = calculateNextOccurrence lastProcessed (frequency recurring)
           in if isDateValidOccurrence calculatedNext (localRecurrence tz recurring)
              then Some calculatedNext
              else findNextValidOccurrence calculatedNext (localRecurrence tz recurring) 100)
      | None \<Rightarrow>
          if processedCount s > 0 then
            (if isDateValidOccurrence (currentDate s) (localRecurrence tz recurring)
             then Some (currentDate s)
             else findNextValidOccurrence (currentDate s) (localRecurrence tz recurring) 100)
          else if getTime (currentDate s) \<le> getTime effectiveEndDate then
            (if localMidnight tz (currentDate s) \<noteq> utcMidnight (nextOccurrence recurring) then
               (if isDateValidOccurrence (currentDate s) (localRecurrence tz recurring)
                then Some (currentDate s)
                else findNextValidOccurrence (currentDate s) (localRecurrence tz recurring) 100)
             else None)
          else None)"

text \<open>
  The part of the loop over the due series that follows the initial validation: the
  catch-up loop from the validated date and the update of \<^verbatim>\<open>nextOccurrence\<close> with the text
  of the local date, which is left alone when there is nothing to store.
\<close>

definition catchUp ::
  "int \<Rightarrow> (CreateTransactionInput \<Rightarrow> bool) \<Rightarrow> Date \<Rightarrow> int \<Rightarrow> RecurringTransaction \<Rightarrow> Date \<Rightarrow>
   GenState \<Rightarrow> GenState" where
  "catchUp tz rejects effectiveEndDate maxCatchUpDays recurring validated g =
     (let s = walk tz rejects recurring effectiveEndDate maxCatchUpDays
                (GenState.extend g
                   \<lparr>currentDate = validated, lastProcessedDate = None, processedCount = 0\<rparr>)
      in case nextOccurrenceToStore tz recurring effectiveEndDate s of
           Some d \<Rightarrow>
             (GenState.truncate s)
               \<lparr>store := updateRecurringTransaction (ident recurring)
                           (noUpdate\<lparr>u_nextOccurrence := Some d\<rparr>) (store s)\<rparr>
         | None \<Rightarrow> GenState.truncate s)"

text \<open>\<^verbatim>\<open>effectiveEndDate\<close>: the target date or the end date of the series as read in the
  local zone, whichever is earlier.\<close>

definition effectiveEndDate :: "int \<Rightarrow> RecurringTransaction \<Rightarrow> Date \<Rightarrow> Date" where
  "effectiveEndDate tz recurring target =
     (case map_option (fromStore tz) (endDate recurring) of
        Some e \<Rightarrow> if getTime e < getTime target then e else target
      | None \<Rightarrow> target)"

text \<open>The body of \<^verbatim>\<open>for (const recurring of dueRecurring)\<close>. \<open>currentDate'\<close> is the local
  reading of the stored pointer. The self-healing branch advances it by one calendar step,
  stores the text of that date and goes on to the next series.\<close>

definition processRecurring ::
  "int \<Rightarrow> (CreateTransactionInput \<Rightarrow> bool) \<Rightarrow> Date \<Rightarrow> int \<Rightarrow> GenState \<Rightarrow>
   RecurringTransaction \<Rightarrow> GenState" where
  "processRecurring tz rejects target maxCatchUpDays g recurring =
     (if \<not> isActive recurring then g\<lparr>skipped := skipped g + 1\<rparr>
      else
        (let currentDate' = fromStore tz (nextOccurrence recurring)
         in if getTime currentDate' > getTime (effectiveEndDate tz recurring target)
            then g\<lparr>skipped := skipped g + 1\<rparr>
            else if \<not> isDateValidOccurrence currentDate' (localRecurrence tz recurring) then
              (case findNextValidOccurrence currentDate' (localRecurrence tz recurring) 100 of
                 Some nextValid \<Rightarrow>
                   if getTime nextValid > getTime (effectiveEndDate tz recurring target) then
                     g\<lparr>store := updateRecurringTransaction (ident recurring)
                           (noUpdate\<lparr>u_nextOccurrence :=
                              Some (calculateNextOccurrence currentDate' (frequency recurring))\<rparr>)
                           (store g),
                       skipped := skipped g + 1\<rparr>
                   else catchUp tz rejects (effectiveEndDate tz recurring target) maxCatchUpDays
                          recurring nextValid g
               | None \<Rightarrow>
                   g\<lparr>store := updateRecurringTransaction (ident recurring)
                         (noUpdate\<lparr>u_nextOccurrence :=
                            Some (calculateNextOccurrence currentDate' (frequency recurring))\<rparr>)
                         (store g),
                     skipped := skipped g + 1\<rparr>)
            else catchUp tz rejects (effectiveEndDate tz recurring target) maxCatchUpDays
                   recurring currentDate' g))"

text \<open>
  \<^verbatim>\<open>generateTransactionsFromRecurring(targetDate, maxCatchUpDays = 365)\<close> with the target
  date given (without it the source takes today's date). The due series are asked for
  with the text of the target date, which the model layer compares with the stored dates.
\<close>

definition generateTransactionsFromRecurring ::
  "int \<Rightarrow> (CreateTransactionInput \<Rightarrow> bool) \<Rightarrow> int option list \<Rightarrow> int \<Rightarrow> Store \<Rightarrow>
   error + GenState" where
  "generateTransactionsFromRecurring tz rejects targetDate maxCatchUpDays st =
     (case parseDate targetDate of
        Inl e \<Rightarrow> Inl e
      | Inr target \<Rightarrow>
          Inr (foldl (processRecurring tz rejects target maxCatchUpDays)
                 \<lparr>created = 0, skipped = 0, store = st, warnings = []\<rparr>
                 (getDueRecurringTransactions target st)))"

section \<open>Notions used in the statements\<close>

text \<open>The invariant of a series in the data model: the end date is absent or not before the
  start date.\<close>

definition seriesInvariant :: "'a Recurrence_scheme \<Rightarrow> bool" where
  "seriesInvariant r =
     (case endDate r of None \<Rightarrow> True | Some e \<Rightarrow> getTime e \<ge> getTime (startDate r))"

text \<open>The windows of all series of a store, in the order of the rows.\<close>

definition windows :: "Store \<Rightarrow> (Date \<times> Date option) list" where
  "windows st = map (\<lambda>r. (startDate r, endDate r)) (recurringTransactions st)"

text \<open>The condition of the catch-up loop.\<close>

definition walkGuard :: "Date \<Rightarrow> int \<Rightarrow> WalkState \<Rightarrow> bool" where
  "walkGuard e maxProcessDates s =
     (getTime (currentDate s) \<le> getTime e \<and> processedCount s < maxProcessDates)"

text \<open>The entry that generation creates for a series on a date.\<close>

definition generatedInput :: "RecurringTransaction \<Rightarrow> Date \<Rightarrow> CreateTransactionInput" where
  "generatedInput recurring d =
     \<lparr>t_userId = userId recurring, t_categoryId = categoryId recurring,
      t_amount = amount recurring, t_type = txType recurring,
      t_description = description recurring, date = d,
      recurringTransactionId = Some (ident recurring), isOverride = False\<rparr>"

text \<open>
  What a generation run may do to the row of a series: leave it as it is, or replace its
  \<^verbatim>\<open>nextOccurrence\<close> by a valid occurrence of the series, or (self-healing) by the plain
  calendar advance of a pointer that was not a valid occurrence.
\<close>

definition pointerStep :: "RecurringTransaction \<Rightarrow> RecurringTransaction \<Rightarrow> bool" where
  "pointerStep x x' =
     (x' = x\<lparr>nextOccurrence := nextOccurrence x'\<rparr> \<and>
      (nextOccurrence x' = nextOccurrence x \<or>
       isDateValidOccurrence (nextOccurrence x') x \<or>
       (\<not> isDateValidOccurrence (nextOccurrence x) x \<and>
        nextOccurrence x' = calculateNextOccurrence (nextOccurrence x) (frequency x))))"

text \<open>The rows of the series after \<^verbatim>\<open>nextOccurrence\<close> of the series \<open>r\<close> has been set to
  \<open>p\<close>, or has been left alone (\<open>None\<close>).\<close>

definition pointerRows ::
  "RecurringTransaction \<Rightarrow> Date option \<Rightarrow> RecurringTransaction list \<Rightarrow> RecurringTransaction list" where
  "pointerRows r p rows =
     (case p of
        None \<Rightarrow> rows
      | Some d \<Rightarrow> map (\<lambda>x. if ident x = ident r then x\<lparr>nextOccurrence := d\<rparr> else x) rows)"

text \<open>The state in which the catch-up loop of a series starts.\<close>

definition walkStart :: "GenState \<Rightarrow> Date \<Rightarrow> WalkState" where
  "walkStart g validated =
     GenState.extend g \<lparr>currentDate = validated, lastProcessedDate = None, processedCount = 0\<rparr>"

text \<open>What the catch-up loop keeps true of its date: it is a calendar date and it is not
  before the start date of the series.\<close>

definition walkInv :: "RecurringTransaction \<Rightarrow> WalkState \<Rightarrow> bool" where
  "walkInv r s = (validDate (currentDate s) \<and> getTime (startDate r) \<le> getTime (currentDate s))"

text \<open>The ledger has an entry of the series on the date: what the find-before-create
  check of generation looks for.\<close>

definition hasEntry :: "int \<Rightarrow> RecurringTransaction \<Rightarrow> Date \<Rightarrow> Store \<Rightarrow> bool" where
  "hasEntry tz r d st = (findEntry tz (userId r) d (ident r) st \<noteq> None)"

text \<open>Every date on which the first store has an entry of the series has one in the
  second.\<close>

definition covers :: "int \<Rightarrow> RecurringTransaction \<Rightarrow> Store \<Rightarrow> Store \<Rightarrow> bool" where
  "covers tz r st st' = (\<forall>d. hasEntry tz r d st \<longrightarrow> hasEntry tz r d st')"

text \<open>The ledger entry that \<open>createTransaction\<close> stores for a generated occurrence.\<close>

definition generatedEntry :: "RecurringTransaction \<Rightarrow> Date \<Rightarrow> nat \<Rightarrow> Transaction" where
  "generatedEntry r d i =
     \<lparr>t_userId = userId r, t_categoryId = categoryId r, t_amount = amount r,
      t_type = txType r,
      t_description = (case description r of Some [] \<Rightarrow> None | x \<Rightarrow> x),
      date = d, recurringTransactionId = Some (ident r), isOverride = False, t_id = i\<rparr>"

text \<open>The states in which the catch-up loop tests its condition: \<open>walkReaches \<dots> s t\<close>
  when the loop started in \<open>s\<close> comes to its condition in \<open>t\<close> without having reached the
  catch-up limit.\<close>

inductive walkReaches ::
  "int \<Rightarrow> (CreateTransactionInput \<Rightarrow> bool) \<Rightarrow> RecurringTransaction \<Rightarrow> Date \<Rightarrow> int \<Rightarrow>
   WalkState \<Rightarrow> WalkState \<Rightarrow> bool"
  for tz rejects r e m where
    here: "walkReaches tz rejects r e m s s"
  | step: "walkGuard e m s \<Longrightarrow> walkBody tz rejects r s = (s', True) \<Longrightarrow>
           \<not> m \<le> processedCount s' \<Longrightarrow> walkReaches tz rejects r e m s' t \<Longrightarrow>
           walkReaches tz rejects r e m s t"

text \<open>The search from the stored pointer of a series is not cut off by its bound of a
  hundred iterations: one more iteration would not change its result.\<close>

definition searchNotCut :: "RecurringTransaction \<Rightarrow> bool" where
  "searchNotCut r =
     (isDateValidOccurrence (nextOccurrence r) r \<or>
      findNextValidOccurrence (nextOccurrence r) r 101 =
        findNextValidOccurrence (nextOccurrence r) r 100)"

text \<open>Processing the series again creates nothing, whatever else the ledger holds beyond
  the entries of the store \<open>st\<close>.\<close>

definition settled ::
  "int \<Rightarrow> (CreateTransactionInput \<Rightarrow> bool) \<Rightarrow> Date \<Rightarrow> int \<Rightarrow> Store \<Rightarrow> RecurringTransaction \<Rightarrow>
   bool" where
  "settled tz rejects target m st r =
     (\<forall>g. covers tz r st (store g) \<longrightarrow>
        created (processRecurring tz rejects target m g r) = created g \<and>
        transactions (store (processRecurring tz rejects target m g r)) = transactions (store g))"

section \<open>Example data\<close>

text \<open>\<open>ymd y m d\<close> is the date written \<^verbatim>\<open>y-m-d\<close> (the month counted from 1, as on the
  wire), and \<open>wire dt\<close> the parts of its text.\<close>

definition ymd :: "int \<Rightarrow> int \<Rightarrow> int \<Rightarrow> Date" where
  "ymd y m d = \<lparr>year = y, month = m - 1, day = d\<rparr>"

definition wire :: "Date \<Rightarrow> int option list" where
  "wire dt = [Some (year dt), Some (month dt + 1), Some (day dt)]"



text \<open>A daily series that starts on 2026-01-01, has no end date and has not generated
  anything; a store that holds only this series; and the same store with two entries of the
  series.\<close>

definition dailySeries :: RecurringTransaction where
  "dailySeries =
     \<lparr>startDate = ymd 2026 1 1, endDate = None, frequency = Daily, ident = 0,
      userId = ''u1'', categoryId = ''c1'', amount = 100, txType = Income,
      description = None, nextOccurrence = ymd 2026 1 1, isActive = True\<rparr>"

definition dailyStore :: Store where
  "dailyStore = \<lparr>recurringTransactions = [dailySeries], transactions = [], nextId = 1\<rparr>"

definition ledgerStore :: Store where
  "ledgerStore =
     \<lparr>recurringTransactions = [dailySeries],
      transactions =
        [\<lparr>t_userId = ''u1'', t_categoryId = ''c1'', t_amount = 100, t_type = Income,
          t_description = None, date = ymd 2026 1 2, recurringTransactionId = Some 0,
          isOverride = False, t_id = 1\<rparr>,
         \<lparr>t_userId = ''u1'', t_categoryId = ''c1'', t_amount = 100, t_type = Income,
          t_description = None, date = ymd 2026 1 3, recurringTransactionId = Some 0,
          isOverride = False, t_id = 2\<rparr>],
      nextId = 3\<rparr>"

text \<open>Two time zones besides UTC, whose offset is 0: five hours west and two hours east of
  it.\<close>

definition utcMinus5 :: int where
  "utcMinus5 = - 300"

definition utcPlus2 :: int where
  "utcPlus2 = 120"

text \<open>A store that rejects nothing, and the store left by a generation run in UTC.\<close>

definition acceptAll :: "CreateTransactionInput \<Rightarrow> bool" where
  "acceptAll input = False"

definition storeAfterGenerate ::
  "(CreateTransactionInput \<Rightarrow> bool) \<Rightarrow> Date \<Rightarrow> Store \<Rightarrow> Store" where
  "storeAfterGenerate rejects target st =
     (case generateTransactionsFromRecurring 0 rejects (wire target) 365 st of
        Inr g \<Rightarrow> store g
      | Inl e \<Rightarrow> st)"

text \<open>The daily series split on 2026-01-15 with a new amount of 150, in UTC.\<close>

definition splitStore :: Store where
  "splitStore =
     fst (editRecurringTransaction 0 acceptAll 0 (wire (ymd 2026 1 15)) ''future''
            (noUpdate\<lparr>u_amount := Some 150\<rparr>) dailyStore)"

text \<open>The outcome of a generation run with the default catch-up limit, in a time zone
  and in UTC.\<close>

definition runGenerateIn ::
  "int \<Rightarrow> (CreateTransactionInput \<Rightarrow> bool) \<Rightarrow> Date \<Rightarrow> Store \<Rightarrow> GenState" where
  "runGenerateIn tz rejects target st =
     (case generateTransactionsFromRecurring tz rejects (wire target) 365 st of
        Inr g \<Rightarrow> g
      | Inl e \<Rightarrow> \<lparr>created = 0, skipped = 0, store = st, warnings = []\<rparr>)"

definition runGenerate :: "(CreateTransactionInput \<Rightarrow> bool) \<Rightarrow> Date \<Rightarrow> Store \<Rightarrow> GenState" where
  "runGenerate rejects target st = runGenerateIn 0 rejects target st"

text \<open>A store that rejects every entry dated 2026-01-02; two daily series; and the
  catch-up loop of the first series standing at 2026-01-02.\<close>

definition rejectJan2 :: "CreateTransactionInput \<Rightarrow> bool" where
  "rejectJan2 input = (date input = ymd 2026 1 2)"

definition twoSeriesStore :: Store where
  "twoSeriesStore =
     \<lparr>recurringTransactions = [dailySeries, dailySeries\<lparr>ident := 1, amount := 7\<rparr>],
      transactions = [], nextId = 2\<rparr>"

definition jan2State :: WalkState where
  "jan2State =
     \<lparr>created = 0, skipped = 0, store = twoSeriesStore, warnings = [],
      currentDate = ymd 2026 1 2, lastProcessedDate = None, processedCount = 0\<rparr>"

text \<open>The daily series after one generation run on its first day and a change of its
  frequency to weekly for the whole series, both in UTC: the pointer stands on Friday
  2026-01-09, the series started on a Thursday.\<close>

definition desyncStore :: Store where
  "desyncStore =
     fst (editRecurringTransaction 0 acceptAll 0 (wire (ymd 2026 1 2)) ''all''
            (noUpdate\<lparr>u_frequency := Some Weekly\<rparr>)
            (storeAfterGenerate acceptAll (ymd 2026 1 1) dailyStore))"

text \<open>The daily series with the end date 2026-01-05; the daily series as a weekly one (it
  starts on a Thursday); and a daily series that starts on 1980-01-01.\<close>

definition endedStore :: Store where
  "endedStore = dailyStore\<lparr>recurringTransactions := [dailySeries\<lparr>endDate := Some (ymd 2026 1 5)\<rparr>]\<rparr>"

definition weeklyStore :: Store where
  "weeklyStore = dailyStore\<lparr>recurringTransactions := [dailySeries\<lparr>frequency := Weekly\<rparr>]\<rparr>"

definition oldStore :: Store where
  "oldStore =
     dailyStore\<lparr>recurringTransactions :=
       [dailySeries\<lparr>startDate := ymd 1980 1 1, nextOccurrence := ymd 2026 1 1\<rparr>]\<rparr>"

section \<open>Calendar arithmetic\<close>

lemma div_Suc_int: 
  assumes "0 < (k::int)" 
  shows "(x + 1) div k = x div k + (if (x + 1) mod k = 0 then 1 else 0)"
proof -
  define q r where q_r_def: "q = x div k" "r = x mod k"
  have x: "x = k * q + r" and r: "0 \<le> r" "r < k" using assms by (simp_all add: q_r_def)
  show ?thesis
  proof (cases "r + 1 = k")
    case True
    then have e: "x + 1 = k * (q + 1) + 0" using x by (simp add: algebra_simps)
    have "(x + 1) div k = q + 1" by (rule int_div_pos_eq[OF e]) (use assms in auto)
    moreover have "(x + 1) mod k = 0" by (rule int_mod_pos_eq[OF e]) (use assms in auto)
    ultimately show ?thesis unfolding q_r_def by simp
  next
    case False
    then have e: "x + 1 = k * q + (r + 1)" and b: "0 \<le> r + 1" "r + 1 < k" using x r by auto
    have "(x + 1) div k = q" by (rule int_div_pos_eq[OF e b])
    moreover have "(x + 1) mod k = r + 1" by (rule int_mod_pos_eq[OF e b])
    moreover have "r + 1 \<noteq> 0" using r by simp
    ultimately show ?thesis unfolding q_r_def by simp
  qed
qed

lemma mod_shift: "(y - k * c) mod k = (y::int) mod k"
  by (metis mod_mult_self2 diff_conv_add_uminus mult_minus_right)

lemma dayFromYear_Suc: "dayFromYear (y + 1) = dayFromYear y + (if isLeapYear y then 366 else 365)"
proof -
  have m4: "(y - 1968) mod 4 = y mod 4" using mod_shift[of y 4 492] by simp
  have m100: "(y - 1900) mod 100 = y mod 100" using mod_shift[of y 100 19] by simp
  have m400: "(y - 1600) mod 400 = y mod 400" using mod_shift[of y 400 4] by simp
  have a: "(y + 1 - 1969) div 4 = (y - 1969) div 4 + (if y mod 4 = 0 then 1 else 0)"
    using div_Suc_int[of 4 "y - 1969"] m4 by (simp add: algebra_simps)
  have b: "(y + 1 - 1901) div 100 = (y - 1901) div 100 + (if y mod 100 = 0 then 1 else 0)"
    using div_Suc_int[of 100 "y - 1901"] m100 by (simp add: algebra_simps)
  have c: "(y + 1 - 1601) div 400 = (y - 1601) div 400 + (if y mod 400 = 0 then 1 else 0)"
    using div_Suc_int[of 400 "y - 1601"] m400 by (simp add: algebra_simps)
  have "(100::int) dvd 400" "(4::int) dvd 100" by simp_all
  then have d1: "y mod 400 = 0 \<Longrightarrow> y mod 100 = 0" and d2: "y mod 100 = 0 \<Longrightarrow> y mod 4 = 0"
    by (meson dvd_trans mod_0_imp_dvd dvd_imp_mod_0)+
  show ?thesis unfolding dayFromYear_def isLeapYear_def a b c using d1 d2 by auto
qed


lemma normDay_valid: "1 \<le> d \<Longrightarrow> d \<le> daysInMonth y m \<Longrightarrow> normDay y m d = \<lparr>year = y, month = m, day = d\<rparr>"
  by (simp add: normDay.simps)

lemma newDate_valid: "validDate dt \<Longrightarrow> newDate (year dt) (month dt) (day dt) = dt"
  by (simp add: newDate_def validDate_def normDay_valid zdiv_eq_0_iff)

lemma daysInMonth_bounds: "28 \<le> daysInMonth y m" "daysInMonth y m \<le> 31"
  by (simp_all add: daysInMonth_def)

lemma lastDayOfMonth: 
  assumes "0 \<le> m" "m \<le> 11" 
  shows "day (newDate y (m + 1) 0) = daysInMonth y m"
proof (cases "m = 11")
  case True
  have "newDate y 12 0 = normDay (y + 1) 0 0" by (simp add: newDate_def)
  also have "\<dots> = normDay y 11 31" by (subst normDay.simps) (simp add: daysInMonth_def)
  also have "\<dots> = \<lparr>year = y, month = 11, day = 31\<rparr>" by (rule normDay_valid) (simp_all add: daysInMonth_def)
  finally show ?thesis using True by (simp add: daysInMonth_def)
next
  case False
  with assms have m: "0 \<le> m" "m < 11" by auto
  then have "(m + 1) div 12 = 0" "(m + 1) mod 12 = m + 1" by auto
  then have "newDate y (m + 1) 0 = normDay y (m + 1) 0" by (simp add: newDate_def)
  also have "\<dots> = normDay y m (daysInMonth y m)" using m by (subst normDay.simps) simp
  also have "\<dots> = \<lparr>year = y, month = m, day = daysInMonth y m\<rparr>" 
    using daysInMonth_bounds[of y m] by (intro normDay_valid) auto
  finally show ?thesis by simp
qed

lemma month_cases: "0 \<le> (m::int) \<Longrightarrow> m \<le> 11 \<Longrightarrow> m = 0 \<or> m = 1 \<or> m = 2 \<or> m = 3 \<or> m = 4 \<or> m = 5 \<or> m = 6 \<or> m = 7 \<or> m = 8 \<or> m = 9 \<or> m = 10 \<or> m = 11"
  by arith

lemma daysBeforeMonth_Suc: 
  assumes "0 \<le> m" "m < 11" shows "daysBeforeMonth y (m + 1) = daysBeforeMonth y m + daysInMonth y m"
  using month_cases[of m] assms by (auto simp: daysBeforeMonth_def daysInMonth_def)

lemma daysBeforeMonth_last: "daysBeforeMonth y 11 + 31 = (if isLeapYear y then 366 else 365)"
  by (simp add: daysBeforeMonth_def)

lemma makeDay_month: "0 \<le> m \<Longrightarrow> m \<le> 11 \<Longrightarrow> makeDay y m d = dayFromYear y + daysBeforeMonth y m + d - 1"
  by (simp add: makeDay_def zdiv_eq_0_iff)

lemma makeDay_next_month: 
  "0 \<le> m \<Longrightarrow> m < 11 \<Longrightarrow> makeDay y (m + 1) d = makeDay y m (d + daysInMonth y m)"
  by (simp add: makeDay_month daysBeforeMonth_Suc)

lemma makeDay_next_year: 
  "makeDay (y + 1) 0 d = makeDay y 11 (d + daysInMonth y 11)"
  using daysBeforeMonth_last[of y] by (simp add: makeDay_month dayFromYear_Suc daysInMonth_def daysBeforeMonth_def)

lemma normDay_props: "0 \<le> m \<Longrightarrow> m \<le> 11 \<Longrightarrow> getTime (normDay y m d) = makeDay y m d \<and> validDate (normDay y m d)"
proof (induction y m d rule: normDay.induct)
  case (1 y m d)
  show ?case
  proof (cases "d < 1")
    case True
    show ?thesis
    proof (cases "m \<le> 0")
      case m0: True
      with 1 have m: "m = 0" by simp
      have "normDay y m d = normDay (y - 1) 11 (d + daysInMonth (y - 1) 11)"
        using True m by (subst normDay.simps) simp
      moreover have "makeDay y 0 d = makeDay (y - 1) 11 (d + daysInMonth (y - 1) 11)"
        using makeDay_next_year[of "y - 1" d] by simp
      ultimately show ?thesis using "1.IH"(1)[OF True m0] m by simp
    next
      case False
      with 1 have m: "0 \<le> m - 1" "m - 1 < 11" by auto
      have "normDay y m d = normDay y (m - 1) (d + daysInMonth y (m - 1))"
        using True False by (subst normDay.simps) simp
      moreover have "makeDay y m d = makeDay y (m - 1) (d + daysInMonth y (m - 1))"
        using makeDay_next_month[OF m, of y d] by simp
      ultimately show ?thesis using "1.IH"(2)[OF True False] m by simp
    qed
  next
    case False
    show ?thesis
    proof (cases "d > daysInMonth y m")
      case big: True
      show ?thesis
      proof (cases "m \<ge> 11")
        case m11: True
        with 1 have m: "m = 11" by simp
        have "normDay y m d = normDay (y + 1) 0 (d - daysInMonth y m)"
          using False big m by (subst normDay.simps) simp
        moreover have "makeDay y 11 d = makeDay (y + 1) 0 (d - daysInMonth y 11)"
          using makeDay_next_year[of y "d - daysInMonth y 11"] by simp
        ultimately show ?thesis using "1.IH"(3)[OF False big m11] m by simp
      next
        case m11: False
        with 1 have m: "0 \<le> m" "m < 11" by auto
        have "normDay y m d = normDay y (m + 1) (d - daysInMonth y m)"
          using False big m11 by (subst normDay.simps) simp
        moreover have "makeDay y m d = makeDay y (m + 1) (d - daysInMonth y m)"
          using makeDay_next_month[OF m, of y "d - daysInMonth y m"] by simp
        ultimately show ?thesis using "1.IH"(4)[OF False big m11] m by simp
      qed
    next
      case small: False
      then have "normDay y m d = \<lparr>year = y, month = m, day = d\<rparr>"
        using False by (subst normDay.simps) simp
      then show ?thesis using 1 False small by (simp add: getTime_def validDate_def)
    qed
  qed
qed

lemma newDate_props: "getTime (newDate y m d) = makeDay y m d" "validDate (newDate y m d)"
proof -
  have m: "0 \<le> m mod 12" "m mod 12 \<le> 11" by simp_all
  have "makeDay (y + m div 12) (m mod 12) d = makeDay y m d"
    by (simp add: makeDay_def zdiv_eq_0_iff)
  then show "getTime (newDate y m d) = makeDay y m d" "validDate (newDate y m d)" 
    using normDay_props[OF m, of "y + m div 12" d] by (simp_all add: newDate_def)
qed

lemma getTime_valid: "validDate dt \<Longrightarrow> getTime dt = dayFromYear (year dt) + daysBeforeMonth (year dt) (month dt) + day dt - 1"
  by (simp add: getTime_def validDate_def makeDay_month)

lemma getTime_getPreviousDay: "getTime (getPreviousDay dt) = getTime dt - 1"
  unfolding getPreviousDay_def newDate_props(1) by (simp add: getTime_def makeDay_def)

lemma validDate_getPreviousDay: "validDate (getPreviousDay dt)"
  by (simp add: getPreviousDay_def newDate_props)

lemma validDate_calculateNextOccurrence: "validDate (calculateNextOccurrence dt f)"
  by (cases f) (simp_all add: newDate_props)

lemma getTime_calculateNextOccurrence: 
  assumes "validDate dt" shows "getTime (calculateNextOccurrence dt f) > getTime dt"
proof (cases f)
  case Daily
  then show ?thesis unfolding Daily calculateNextOccurrence.simps newDate_props(1) 
    by (simp add: getTime_def makeDay_def)
next
  case Weekly
  then show ?thesis unfolding Weekly calculateNextOccurrence.simps newDate_props(1) 
    by (simp add: getTime_def makeDay_def)
next
  case Monthly
  from assms have m: "0 \<le> month dt" "month dt \<le> 11" by (simp_all add: validDate_def)
  have g: "getTime (calculateNextOccurrence dt f) = makeDay (year dt) (month dt + 1) (day dt)"
    unfolding Monthly calculateNextOccurrence.simps newDate_props(1) ..
  show ?thesis
  proof (cases "month dt = 11")
    case True
    have "makeDay (year dt) 12 (day dt) = makeDay (year dt + 1) 0 (day dt)" by (simp add: makeDay_def)
    then show ?thesis using True makeDay_next_year[of "year dt" "day dt"] unfolding g
      by (simp add: getTime_def makeDay_month daysInMonth_def)
  next
    case False
    with m have "month dt < 11" by simp
    from makeDay_next_month[OF m(1) this, of "year dt" "day dt"] daysInMonth_bounds[of "year dt" "month dt"]
    show ?thesis using m unfolding g by (simp add: getTime_def makeDay_month)
  qed
next
  case Yearly
  from assms have m: "0 \<le> month dt" "month dt \<le> 11" by (simp_all add: validDate_def)
  have g: "getTime (calculateNextOccurrence dt f) = makeDay (year dt + 1) (month dt) (day dt)"
    unfolding Yearly calculateNextOccurrence.simps newDate_props(1) ..
  have "daysBeforeMonth (year dt + 1) (month dt) + 365 > daysBeforeMonth (year dt) (month dt)"
    by (simp add: daysBeforeMonth_def)
  then show ?thesis using m unfolding g
    by (simp add: getTime_def makeDay_month dayFromYear_Suc)
qed


section \<open>Stored dates and local dates\<close>

lemma getTime_fromStore:
  "getTime (fromStore tz d) = (if tz < 0 then getTime d - 1 else getTime d)"
  unfolding fromStore_def using newDate_props(1)[of "year d" "month d" "day d - 1"]
  by (simp add: getTime_def makeDay_def)

text \<open>The local day that \<open>fromStore\<close> names is the one on which the stored UTC midnight
  falls, in every zone that is less than a day away from UTC.\<close>

lemma fromStore_day:
  assumes "- 1440 < tz" and "tz < 1440"
  shows "localMidnight tz (fromStore tz d) \<le> utcMidnight d"
    and "utcMidnight d < localMidnight tz (fromStore tz d) + 1440"
  using assms by (simp_all add: localMidnight_def utcMidnight_def getTime_fromStore)

lemma validDate_fromStore: "validDate d \<Longrightarrow> validDate (fromStore tz d)"
  by (simp add: fromStore_def newDate_props(2))

lemma fromStore_east [simp]: "0 \<le> tz \<Longrightarrow> fromStore tz d = d"
  by (simp add: fromStore_def)

lemma map_fromStore_east [simp]: "0 \<le> tz \<Longrightarrow> map_option (fromStore tz) e = e"
  by (cases e) simp_all

lemma localRecurrence_simps [simp]:
  "startDate (localRecurrence tz r) = fromStore tz (startDate r)"
  "endDate (localRecurrence tz r) = map_option (fromStore tz) (endDate r)"
  "frequency (localRecurrence tz r) = frequency r"
  by (simp_all add: localRecurrence_def)

text \<open>The policy functions read the three fields of their argument only.\<close>

lemma isDateValidOccurrence_cong:
  "startDate a = startDate b \<Longrightarrow> endDate a = endDate b \<Longrightarrow> frequency a = frequency b \<Longrightarrow>
   isDateValidOccurrence d a = isDateValidOccurrence d b"
  by (auto simp: isDateValidOccurrence_def Let_def split: FrequencyType.splits)

lemma findLoop_cong:
  "startDate a = startDate b \<Longrightarrow> endDate a = endDate b \<Longrightarrow> frequency a = frequency b \<Longrightarrow>
   findLoop a n c i = findLoop b n c i"
proof (induction a n c i rule: findLoop.induct)
  case (1 a n c i)
  note v = isDateValidOccurrence_cong[OF "1.prems", of c]
  show ?case
  proof (cases "i < n \<and> \<not> isDateValidOccurrence c a \<and> 
      \<not> afterEnd (calculateNextOccurrence c (frequency a)) (endDate a) \<and>
      \<not> getTime (calculateNextOccurrence c (frequency a)) \<le> getTime c")
    case True
    with "1.IH"[OF _ _ refl _ _ "1.prems"] 
    have "findLoop a n (calculateNextOccurrence c (frequency a)) (i + 1) =
          findLoop b n (calculateNextOccurrence c (frequency a)) (i + 1)" by simp
    with True v "1.prems" show ?thesis 
      by (subst findLoop.simps, subst (2) findLoop.simps) (simp add: Let_def)
  next
    case False
    with v "1.prems" show ?thesis 
      by (subst findLoop.simps, subst (2) findLoop.simps) (auto simp: Let_def)
  qed
qed

lemma findNextValidOccurrence_cong:
  "startDate a = startDate b \<Longrightarrow> endDate a = endDate b \<Longrightarrow> frequency a = frequency b \<Longrightarrow>
   findNextValidOccurrence c a n = findNextValidOccurrence c b n"
  using findLoop_cong[of a b] by (simp add: findNextValidOccurrence_def Let_def)

text \<open>In UTC and east of it the service reads the dates of a series as they are stored.\<close>

lemma valid_local_east [simp]:
  "0 \<le> tz \<Longrightarrow> isDateValidOccurrence d (localRecurrence tz r) = isDateValidOccurrence d r"
  by (rule isDateValidOccurrence_cong) simp_all

lemma findNext_local_east [simp]:
  "0 \<le> tz \<Longrightarrow>
   findNextValidOccurrence c (localRecurrence tz r) n = findNextValidOccurrence c r n"
  by (rule findNextValidOccurrence_cong) simp_all

lemma checkEffectiveDate_east:
  "0 \<le> tz \<Longrightarrow> checkEffectiveDate tz d existing =
     (if getTime d < getTime (startDate existing) then Some EffectiveDateBeforeStart
      else if afterEnd d (endDate existing) then Some EffectiveDateAfterEnd
      else None)"
  by (simp add: checkEffectiveDate_def)

lemma effectiveEndDate_east:
  "0 \<le> tz \<Longrightarrow> effectiveEndDate tz recurring target =
     (case endDate recurring of
        Some e \<Rightarrow> if getTime e < getTime target then e else target
      | None \<Rightarrow> target)"
  by (simp add: effectiveEndDate_def)

text \<open>A local midnight and a stored date lie at the same instant only in UTC, where they
  then are the same day; the local day of the edit and delete queries holds the stored
  midnight of the same day in UTC and east of it, and that of the next day west of it.\<close>

lemma same_instant:
  assumes "- 1440 < tz" and "tz < 1440"
  shows "utcMidnight a = localMidnight tz d \<longleftrightarrow> tz = 0 \<and> getTime a = getTime d"
proof -
  have "tz = 0" if "1440 * getTime a = 1440 * getTime d - tz"
  proof -
    from that have "tz = 1440 * (getTime d - getTime a)" by simp
    with assms show ?thesis by (cases "getTime d - getTime a" rule: int_cases3) auto
  qed
  then show ?thesis by (auto simp: utcMidnight_def localMidnight_def)
qed

lemma same_instant_utc [simp]:
  "utcMidnight a = localMidnight 0 d \<longleftrightarrow> getTime a = getTime d"
  "localMidnight 0 d = utcMidnight a \<longleftrightarrow> getTime a = getTime d"
  by (auto simp: utcMidnight_def localMidnight_def)

lemma in_local_day:
  assumes "- 1440 < tz" and "tz < 1440"
  shows "localMidnight tz d \<le> utcMidnight a \<and> utcMidnight a \<le> localMidnight tz d + 1439 \<longleftrightarrow>
         getTime a = (if tz < 0 then getTime d + 1 else getTime d)"
  using assms by (auto simp: utcMidnight_def localMidnight_def)

lemma findEntry_utc:
  "findEntry 0 uid d rid st =
     find (\<lambda>t. t_userId t = uid \<and> getTime (date t) = getTime d \<and>
               recurringTransactionId t = Some rid) (transactions st)"
  by (simp add: findEntry_def)

lemma findOverride_utc:
  "findOverride 0 uid d rid st =
     find (\<lambda>t. t_userId t = uid \<and> getTime (date t) = getTime d \<and>
               recurringTransactionId t = Some rid \<and> isOverride t) (transactions st)"
  by (simp add: findOverride_def)

lemma findInDay_east:
  assumes "0 \<le> tz" and "tz < 1440"
  shows "findInDay tz uid d rid st =
     find (\<lambda>t. t_userId t = uid \<and> getTime (date t) = getTime d \<and>
               recurringTransactionId t = Some rid) (transactions st)"
  unfolding findInDay_def using in_local_day[of tz d] assms
  by (intro arg_cong2[where f = find] ext) auto

section \<open>Occurrence rules\<close>





section \<open>The bounded search\<close>

lemma findLoop_Some:
  "findLoop r n c i = Some v \<Longrightarrow>
   \<exists>k. i + int k < n \<and> v = iterNext r k c \<and> isDateValidOccurrence v r \<and>
       (\<forall>j<k. chainStep r c j)"
proof (induction r n c i rule: findLoop.induct)
  case (1 r n c i)
  from "1.prems" have lt: "i < n" by (subst (asm) findLoop.simps) (simp split: if_splits)
  show ?case
  proof (cases "isDateValidOccurrence c r")
    case True
    with "1.prems" lt have "v = c" by (subst (asm) findLoop.simps) simp
    with True lt show ?thesis by (intro exI[of _ 0]) simp
  next
    case False
    define nx where "nx = calculateNextOccurrence c (frequency r)"
    from "1.prems" lt False have a: "\<not> afterEnd nx (endDate r)" and b: "\<not> getTime nx \<le> getTime c"
      and rec: "findLoop r n nx (i + 1) = Some v"
      by (subst (asm) findLoop.simps, simp add: Let_def nx_def split: if_splits)+
    from "1.IH"[OF lt False nx_def a b rec]
    obtain k where k: "i + 1 + int k < n" "v = iterNext r k nx" "isDateValidOccurrence v r"
       "\<forall>j<k. chainStep r nx j" by blast
    have c0: "chainStep r c 0" using False a b by (simp add: chainStep_def nx_def)
    have cS: "\<And>j. chainStep r c (Suc j) = chainStep r nx j" by (simp add: chainStep_def nx_def)
    have "\<forall>j<Suc k. chainStep r c j"
    proof (intro allI impI)
      fix j assume "j < Suc k"
      then show "chainStep r c j" using c0 cS k(4) by (cases j) auto
    qed
    with k(1,2,3) show ?thesis unfolding nx_def by (intro exI[of _ "Suc k"]) simp
  qed
qed




section \<open>The catch-up loop\<close>

lemma walk_stop: "\<not> walkGuard e m s \<Longrightarrow> walk tz rejects r e m s = s"
  by (subst walk.simps) (auto simp: walkGuard_def)

lemma walk_break: "walkGuard e m s \<Longrightarrow> walkBody tz rejects r s = (s', False) \<Longrightarrow> walk tz rejects r e m s = s'"
  by (subst walk.simps) (simp add: walkGuard_def)

lemma walk_limit: 
  "walkGuard e m s \<Longrightarrow> walkBody tz rejects r s = (s', True) \<Longrightarrow> m \<le> processedCount s' \<Longrightarrow> 
   walk tz rejects r e m s = s'\<lparr>warnings := warnings s' @ [ident r]\<rparr>"
  by (subst walk.simps) (simp add: walkGuard_def)

lemma walk_continue: 
  "walkGuard e m s \<Longrightarrow> walkBody tz rejects r s = (s', True) \<Longrightarrow> \<not> m \<le> processedCount s' \<Longrightarrow> 
   walk tz rejects r e m s = walk tz rejects r e m s'"
  by (subst walk.simps) (simp add: walkGuard_def)

lemma walk_induct [case_names stop break limit continue]:
  assumes "\<And>tz rejects r e m s. \<not> walkGuard e m s \<Longrightarrow> P tz rejects r e m s"
    and "\<And>tz rejects r e m s s'. walkGuard e m s \<Longrightarrow> walkBody tz rejects r s = (s', False) \<Longrightarrow> P tz rejects r e m s"
    and "\<And>tz rejects r e m s s'. walkGuard e m s \<Longrightarrow> walkBody tz rejects r s = (s', True) \<Longrightarrow> 
           m \<le> processedCount s' \<Longrightarrow> P tz rejects r e m s"
    and "\<And>tz rejects r e m s s'. walkGuard e m s \<Longrightarrow> walkBody tz rejects r s = (s', True) \<Longrightarrow> 
           \<not> m \<le> processedCount s' \<Longrightarrow> P tz rejects r e m s' \<Longrightarrow> P tz rejects r e m s"
  shows "P tz rejects r e m s"
proof (induction tz rejects r e m s rule: walk.induct)
  case (1 tz rejects r e m s)
  show ?case
  proof (cases "walkGuard e m s")
    case False then show ?thesis by (rule assms(1))
  next
    case True
    obtain s' b where wb: "walkBody tz rejects r s = (s', b)" by (cases "walkBody tz rejects r s")
    show ?thesis
    proof (cases b)
      case False 
      with wb have "walkBody tz rejects r s = (s', False)" by simp
      from assms(2)[OF True this] show ?thesis .
    next
      case b: True 
      with wb have wb': "walkBody tz rejects r s = (s', True)" by simp
      show ?thesis
      proof (cases "m \<le> processedCount s'")
        case lim: True 
        from assms(3)[OF True wb' lim] show ?thesis .
      next
        case False
        have g: "getTime (currentDate s) \<le> getTime e \<and> processedCount s < m"
          using True by (simp add: walkGuard_def)
        have bt: "b = True" using b by simp
        have "P tz rejects r e m s'" by (rule "1.IH"[OF g wb[symmetric] bt False])
        from assms(4)[OF True wb' False this] show ?thesis .
      qed
    qed
  qed
qed

lemma store_truncate [simp]: "store (GenState.truncate s) = store s"
  by (simp add: GenState.truncate_def)

lemma store_extend [simp]: "store (GenState.extend g x) = store g"
  by (simp add: GenState.extend_def)

text \<open>The loop never touches the rows of the series, and it only adds ledger entries.\<close>

lemma rows_createTransaction:
  "createTransaction rejects input st = Inr st' \<Longrightarrow>
   recurringTransactions st' = recurringTransactions st"
  by (auto simp: createTransaction_def split: if_splits)

lemma rows_processDate:
  "processDateForRecurring tz rejects d r st = (res, st') \<Longrightarrow>
   recurringTransactions st' = recurringTransactions st"
  by (auto simp: processDateForRecurring_def Let_def rows_createTransaction
           split: sum.splits if_splits)

lemma rows_walkBody:
  "walkBody tz rejects r s = (s', b) \<Longrightarrow>
   recurringTransactions (store s') = recurringTransactions (store s)"
  by (auto simp: walkBody_def Let_def split: if_splits prod.splits option.splits
           dest: rows_processDate)

lemma rows_walk:
  "recurringTransactions (store (walk tz rejects r e m s)) = recurringTransactions (store s)"
proof (induction tz rejects r e m s rule: walk_induct)
  case (stop tz rejects r e m s) then show ?case by (simp add: walk_stop)
next
  case (break tz rejects r e m s s') then show ?case by (simp add: walk_break rows_walkBody)
next
  case (limit tz rejects r e m s s') then show ?case by (simp add: walk_limit rows_walkBody)
next
  case (continue tz rejects r e m s s') then show ?case by (simp add: walk_continue rows_walkBody)
qed

text \<open>The induction rule for the loop in UTC.\<close>

lemma walk_induct_utc [case_names stop break limit continue]:
  assumes "\<And>rejects r e m s. \<not> walkGuard e m s \<Longrightarrow> P rejects r e m s"
    and "\<And>rejects r e m s s'. walkGuard e m s \<Longrightarrow> walkBody 0 rejects r s = (s', False) \<Longrightarrow> P rejects r e m s"
    and "\<And>rejects r e m s s'. walkGuard e m s \<Longrightarrow> walkBody 0 rejects r s = (s', True) \<Longrightarrow> 
           m \<le> processedCount s' \<Longrightarrow> P rejects r e m s"
    and "\<And>rejects r e m s s'. walkGuard e m s \<Longrightarrow> walkBody 0 rejects r s = (s', True) \<Longrightarrow> 
           \<not> m \<le> processedCount s' \<Longrightarrow> P rejects r e m s' \<Longrightarrow> P rejects r e m s"
  shows "P rejects r e m s"
proof -
  have "tz = 0 \<longrightarrow> P rejects r e m s" for tz :: int
  proof (induction tz rejects r e m s rule: walk_induct)
    case (stop tz rejects r e m s)
    then show ?case by (simp add: assms(1))
  next
    case (break tz rejects r e m s s')
    then show ?case using assms(2) by blast
  next
    case (limit tz rejects r e m s s')
    then show ?case using assms(3) by blast
  next
    case (continue tz rejects r e m s s')
    then show ?case using assms(4) by blast
  qed
  then show ?thesis by simp
qed

section \<open>Scoped edit and delete\<close>

lemma parseDate_wire: "validDate dt \<Longrightarrow> 100 \<le> year dt \<Longrightarrow> parseDate (wire dt) = Inr dt"
  by (simp add: parseDate_def wire_def legacyYear_def newDate_valid)

lemma dateOfText_wire: "validDate dt \<Longrightarrow> dateOfText (wire dt) = Inr dt"
  by (simp add: dateOfText_def wire_def newDate_valid)

lemma dateOfText_parseDate: "parseDate parts = Inr d \<Longrightarrow> \<exists>d'. dateOfText parts = Inr d'"
  by (auto simp: parseDate_def dateOfText_def split: list.splits option.splits)

lemma filter_remove1_distinct:
  "distinct (map f xs) \<Longrightarrow> t \<in> set xs \<Longrightarrow> filter (\<lambda>x. f x \<noteq> f t) xs = remove1 t xs"
proof (induction xs)
  case Nil then show ?case by simp
next
  case (Cons a xs)
  show ?case
  proof (cases "a = t")
    case True
    with Cons.prems have "\<forall>x\<in>set xs. f x \<noteq> f t" by (auto simp: image_iff)
    then have "filter (\<lambda>x. f x \<noteq> f t) xs = xs" by (simp add: filter_id_conv)
    with True show ?thesis by simp
  next
    case False
    with Cons.prems have "t \<in> set xs" "f a \<noteq> f t" by (auto simp: image_iff)
    with Cons show ?thesis using False by simp
  qed
qed

lemma find_SomeD: "find P xs = Some x \<Longrightarrow> x \<in> set xs \<and> P x"
  by (auto simp: find_Some_iff)

lemma getById_update:
  "getRecurringTransactionById i (updateRecurringTransaction i input st) =
     map_option (applyUpdate input) (getRecurringTransactionById i st)"
proof -
  have "find (\<lambda>r. ident r = i) (map (\<lambda>r. if ident r = i then applyUpdate input r else r) xs)
        = map_option (applyUpdate input) (find (\<lambda>r. ident r = i) xs)" for xs
    by (induction xs) (auto simp: applyUpdate_def)
  then show ?thesis by (simp add: getRecurringTransactionById_def updateRecurringTransaction_def)
qed

text \<open>
  In UTC and east of it, an effective date that lies before the start date of the series
  or after its end date makes both operations fail with the corresponding error, and the
  store they leave is the store they found. The date is the one that the service builds
  from the numbers of the text.
\<close>

lemma window_check_east:
  assumes "0 \<le> tz" and "parseDate effectiveDate = Inr d"
    and "getRecurringTransactionById i st = Some existing"
    and "getTime d < getTime (startDate existing) \<or> afterEnd d (endDate existing)"
  shows "editRecurringTransaction tz rejects i effectiveDate scope updates st =
           (st, Inl (if getTime d < getTime (startDate existing)
                     then EffectiveDateBeforeStart else EffectiveDateAfterEnd)) \<and>
         deleteRecurringTransaction tz i effectiveDate scope st =
           (st, Inl (if getTime d < getTime (startDate existing)
                     then EffectiveDateBeforeStart else EffectiveDateAfterEnd))"
  using assms
  by (auto simp: editRecurringTransaction_def deleteRecurringTransaction_def
                 checkEffectiveDate_east)

text \<open>
  C7. The check of the effective date does not keep every date outside the window of the
  series out. Five hours west of UTC the start date 2026-01-01 of the daily series is read
  as 2025-12-31: an edit of the single occurrence of 2025-12-31 is accepted and writes an
  override entry, and a delete of scope \<^verbatim>\<open>future\<close> with that date is accepted and writes the
  end date 2025-12-30. In every zone the year of the text \<^verbatim>\<open>0099-06-01\<close> is taken for 1999,
  so that an edit with this date on a series that starts in 1980 is accepted and writes an
  override entry dated 1999-06-01.
\<close>

theorem effective_date_outside_window_accepted:
  "getTime (ymd 2025 12 31) < getTime (startDate dailySeries) \<and>
   snd (editRecurringTransaction utcMinus5 acceptAll 0 (wire (ymd 2025 12 31)) ''single''
          (noUpdate\<lparr>u_amount := Some 50\<rparr>) dailyStore) =
     Inr \<lparr>recurringTransaction = Some dailySeries, newRecurringTransaction = None\<rparr> \<and>
   map (\<lambda>t. (date t, t_amount t, isOverride t))
     (transactions
        (fst (editRecurringTransaction utcMinus5 acceptAll 0 (wire (ymd 2025 12 31)) ''single''
                (noUpdate\<lparr>u_amount := Some 50\<rparr>) dailyStore))) =
     [(ymd 2025 12 31, 50, True)] \<and>
   snd (deleteRecurringTransaction utcMinus5 0 (wire (ymd 2025 12 31)) ''future'' dailyStore) =
     Inr \<lparr>deleted = False\<rparr> \<and>
   map (\<lambda>r. (startDate r, endDate r))
     (recurringTransactions
        (fst (deleteRecurringTransaction utcMinus5 0 (wire (ymd 2025 12 31)) ''future''
                dailyStore))) =
     [(ymd 2026 1 1, Some (ymd 2025 12 30))] \<and>
   map startDate (recurringTransactions oldStore) = [ymd 1980 1 1] \<and>
   snd (editRecurringTransaction 0 acceptAll 0 [Some 99, Some 6, Some 1] ''single''
          (noUpdate\<lparr>u_amount := Some 50\<rparr>) oldStore) =
     Inr \<lparr>recurringTransaction = getRecurringTransactionById 0 oldStore,
          newRecurringTransaction = None\<rparr> \<and>
   map (\<lambda>t. (date t, t_amount t, isOverride t))
     (transactions
        (fst (editRecurringTransaction 0 acceptAll 0 [Some 99, Some 6, Some 1] ''single''
                (noUpdate\<lparr>u_amount := Some 50\<rparr>) oldStore))) =
     [(ymd 1999 6 1, 50, True)]"
  by code_simp

text \<open>
  For a series and an effective date inside its window, in UTC and east of it, the scoped
  delete reports \<open>deleted = True\<close> exactly for the scope \<^verbatim>\<open>all\<close>. For the scopes \<^verbatim>\<open>single\<close>
  and \<^verbatim>\<open>future\<close> it reports \<open>deleted = False\<close> and the series can still be found. For
  \<^verbatim>\<open>single\<close> the rows of the series are untouched and the ledger either is unchanged or
  has lost exactly one entry, an entry of this series on the effective date.
\<close>

lemma scoped_delete_east:
  assumes "0 \<le> tz" and "tz < 1440" and "parseDate effectiveDate = Inr d"
    and "getRecurringTransactionById i st = Some existing"
    and "getTime (startDate existing) \<le> getTime d" and "\<not> afterEnd d (endDate existing)"
    and "distinct (map t_id (transactions st))"
    and "deleteRecurringTransaction tz i effectiveDate scope st = (st', res)"
  shows "(res = Inr \<lparr>deleted = True\<rparr> \<longleftrightarrow> scope = ''all'') \<and>
         (scope = ''single'' \<or> scope = ''future'' \<longrightarrow>
            res = Inr \<lparr>deleted = False\<rparr> \<and> getRecurringTransactionById i st' \<noteq> None) \<and>
         (scope = ''single'' \<longrightarrow>
            recurringTransactions st' = recurringTransactions st \<and>
            (transactions st' = transactions st \<or>
             (\<exists>t \<in> set (transactions st).
                recurringTransactionId t = Some i \<and> getTime (date t) = getTime d \<and>
                transactions st' = remove1 t (transactions st))))"
proof -
  note assms' = assms(3-)
  from assms(1,4,5,6) have chk: "checkEffectiveDate tz d existing = None"
    by (simp add: checkEffectiveDate_east)
  note fd = findInDay_east[OF assms(1,2)]
  consider (single) "scope = ''single''" | (future) "scope = ''future''" | (all) "scope = ''all''"
    | (other) "scope \<noteq> ''single''" "scope \<noteq> ''future''" "scope \<noteq> ''all''" by blast
  then show ?thesis
  proof cases
    case single
    show ?thesis
    proof (cases "findInDay tz (userId existing) d i st")
      case None
      with assms' chk single show ?thesis by (auto simp: deleteRecurringTransaction_def)
    next
      case (Some t)
      then have t: "t \<in> set (transactions st)" "recurringTransactionId t = Some i" "getTime (date t) = getTime d"
        by (auto simp: fd dest: find_SomeD)
      from assms' chk single Some have st': "st' = deleteTransaction (t_id t) st" and res: "res = Inr \<lparr>deleted = False\<rparr>" 
        by (auto simp: deleteRecurringTransaction_def)
      have "transactions st' = remove1 t (transactions st)"
        unfolding st' deleteTransaction_def using filter_remove1_distinct[OF assms(7) t(1)] by simp
      moreover have "recurringTransactions st' = recurringTransactions st" 
        unfolding st' deleteTransaction_def by simp
      ultimately show ?thesis using t res single assms(4) by (auto simp: getRecurringTransactionById_def)
    qed
  next
    case future
    with assms' chk have st': "st' = updateRecurringTransaction i (noUpdate\<lparr>u_endDate := Some (Some (getPreviousDay d))\<rparr>) st"
      and res: "res = Inr \<lparr>deleted = False\<rparr>" 
      by (auto simp: deleteRecurringTransaction_def Let_def)
    show ?thesis using future res assms(4) unfolding st' getById_update by simp
  next
    case all
    with assms' chk show ?thesis by (auto simp: deleteRecurringTransaction_def)
  next
    case other
    with assms' chk show ?thesis by (auto simp: deleteRecurringTransaction_def)
  qed
qed

text \<open>
  C10. West of UTC the scoped delete does not do this. The end date 2026-01-05 of a series
  is read as 2026-01-04 there, so that a delete dated 2026-01-05, the last day of the
  window, is refused. And the local day of 2026-01-02 holds the UTC midnight of
  2026-01-03: the delete of the single occurrence of 2026-01-02 in a ledger with the
  entries of 2026-01-02 and 2026-01-03 removes the entry of 2026-01-03 and leaves that of
  2026-01-02.
\<close>

theorem scoped_delete_west_of_utc:
  "map (\<lambda>r. (startDate r, endDate r)) (recurringTransactions endedStore) =
     [(ymd 2026 1 1, Some (ymd 2026 1 5))] \<and>
   deleteRecurringTransaction utcMinus5 0 (wire (ymd 2026 1 5)) ''single'' endedStore =
     (endedStore, Inl EffectiveDateAfterEnd) \<and>
   deleteRecurringTransaction utcMinus5 0 (wire (ymd 2026 1 5)) ''all'' endedStore =
     (endedStore, Inl EffectiveDateAfterEnd) \<and>
   map (\<lambda>t. (recurringTransactionId t, date t, t_id t)) (transactions ledgerStore) =
     [(Some 0, ymd 2026 1 2, 1), (Some 0, ymd 2026 1 3, 2)] \<and>
   snd (deleteRecurringTransaction utcMinus5 0 (wire (ymd 2026 1 2)) ''single'' ledgerStore) =
     Inr \<lparr>deleted = False\<rparr> \<and>
   map (\<lambda>t. (recurringTransactionId t, date t, t_id t))
     (transactions
        (fst (deleteRecurringTransaction utcMinus5 0 (wire (ymd 2026 1 2)) ''single''
                ledgerStore))) =
     [(Some 0, ymd 2026 1 2, 1)]"
  by code_simp

section \<open>The window of a series\<close>

lemma seriesInvariant_windows:
  "(\<forall>r\<in>set (recurringTransactions st). seriesInvariant r) \<longleftrightarrow>
   (\<forall>(s, e)\<in>set (windows st). case e of None \<Rightarrow> True | Some e' \<Rightarrow> getTime e' \<ge> getTime s)"
  by (auto simp: windows_def seriesInvariant_def)

lemma windows_pointer_update [simp]:
  "windows (updateRecurringTransaction i (noUpdate\<lparr>u_nextOccurrence := Some p\<rparr>) st) = windows st"
  by (simp add: windows_def updateRecurringTransaction_def applyUpdate_def noUpdate_def comp_def)

lemma windows_walk:
  "windows (store (walk tz rejects r e m s)) = windows (store s)"
  by (simp add: windows_def rows_walk)

lemma windows_catchUp:
  "windows (store (catchUp tz rejects e m r v g)) = windows (store g)"
  by (simp add: catchUp_def Let_def windows_walk split: option.splits)

lemma windows_processRecurring:
  "windows (store (processRecurring tz rejects target m g r)) = windows (store g)"
  by (simp add: processRecurring_def Let_def windows_catchUp split: option.splits)

lemma windows_foldl:
  "windows (store (foldl (processRecurring tz rejects target m) g rs)) = windows (store g)"
  by (induction rs arbitrary: g) (simp_all add: windows_processRecurring)

lemma windows_generate:
  "generateTransactionsFromRecurring tz rejects t m st = Inr g \<Longrightarrow> windows (store g) = windows st"
  by (auto simp: generateTransactionsFromRecurring_def windows_foldl split: sum.splits)

lemma getById_SomeD: 
  "getRecurringTransactionById i st = Some existing \<Longrightarrow> existing \<in> set (recurringTransactions st) \<and> ident existing = i"
  by (auto simp: getRecurringTransactionById_def dest: find_SomeD)

lemma getById_unique:
  assumes "distinct (map ident (recurringTransactions st))" 
    and "getRecurringTransactionById i st = Some existing"
    and "r \<in> set (recurringTransactions st)" and "ident r = i"
  shows "r = existing"
proof -
  from assms(1) have "inj_on ident (set (recurringTransactions st))" by (simp add: distinct_map)
  with getById_SomeD[OF assms(2)] assms(3,4) show ?thesis by (auto dest: inj_onD)
qed

lemma invariant_update:
  assumes "\<forall>r\<in>set (recurringTransactions st). seriesInvariant r"
    and "distinct (map ident (recurringTransactions st))"
    and "getRecurringTransactionById i st = Some existing"
    and "seriesInvariant (applyUpdate input existing)"
  shows "\<forall>r\<in>set (recurringTransactions (updateRecurringTransaction i input st)). seriesInvariant r"
proof
  fix r assume "r \<in> set (recurringTransactions (updateRecurringTransaction i input st))"
  then obtain x where x: "x \<in> set (recurringTransactions st)" 
    "r = (if ident x = i then applyUpdate input x else x)"
    by (auto simp: updateRecurringTransaction_def)
  show "seriesInvariant r"
  proof (cases "ident x = i")
    case True
    with getById_unique[OF assms(2,3) x(1)] x(2) assms(4) show ?thesis by simp
  next
    case False with x assms(1) show ?thesis by simp
  qed
qed

lemma seriesInvariant_endDate:
  "seriesInvariant (applyUpdate (noUpdate\<lparr>u_endDate := Some (Some e)\<rparr>) r) \<longleftrightarrow> getTime (startDate r) \<le> getTime e"
  by (simp add: seriesInvariant_def applyUpdate_def noUpdate_def)


text \<open>
  C6 (as stated, refuted). A delete of scope \<^verbatim>\<open>future\<close> whose effective date is the start
  date of the series is accepted and leaves the series with an end date one day before its
  start date. (West of UTC, where the start date is read as the day before, a delete dated
  on the day before the start date is accepted as well and leaves the end date two days
  before the start date.)
\<close>

theorem series_window_counterexample:
  "seriesInvariant dailySeries \<and>
   getRecurringTransactionById 0 dailyStore = Some dailySeries \<and>
   checkEffectiveDate 0 (ymd 2026 1 1) dailySeries = None \<and>
   snd (deleteRecurringTransaction 0 0 (wire (ymd 2026 1 1)) ''future'' dailyStore) =
     Inr \<lparr>deleted = False\<rparr> \<and>
   map_option endDate
     (getRecurringTransactionById 0
        (fst (deleteRecurringTransaction 0 0 (wire (ymd 2026 1 1)) ''future'' dailyStore))) =
     Some (Some (ymd 2025 12 31)) \<and>
   map_option seriesInvariant
     (getRecurringTransactionById 0
        (fst (deleteRecurringTransaction 0 0 (wire (ymd 2026 1 1)) ''future'' dailyStore))) =
     Some False \<and>
   checkEffectiveDate utcMinus5 (ymd 2025 12 31) dailySeries = None \<and>
   map_option endDate
     (getRecurringTransactionById 0
        (fst (deleteRecurringTransaction utcMinus5 0 (wire (ymd 2025 12 31)) ''future''
                dailyStore))) =
     Some (Some (ymd 2025 12 30))"
  by code_simp

text \<open>
  C6 (amended). In a store whose series all satisfy the invariant and have distinct
  identifiers, and in every time zone, every series of the store left by a scoped edit, by
  a scoped delete or by a generation run satisfies the invariant again, provided that an
  operation of scope \<^verbatim>\<open>future\<close> that passes the check of its effective date is dated after
  the start date of the series, and that an end date given in the update is not before the
  date of the text of the effective date (\<^verbatim>\<open>future\<close>, for the new series) or before the
  start date (\<^verbatim>\<open>all\<close>).
\<close>

theorem series_window_preserved:
  assumes inv: "\<forall>r\<in>set (recurringTransactions st). seriesInvariant r"
    and dist: "distinct (map ident (recurringTransactions st))"
    and parse: "parseDate effectiveDate = Inr d" 
    and ex: "getRecurringTransactionById i st = Some existing"
    and afterStart: "scope = ''future'' \<longrightarrow> checkEffectiveDate tz d existing = None \<longrightarrow>
           getTime (startDate existing) < getTime d"
    and newEnd: "scope = ''future'' \<longrightarrow>
           (\<forall>e s. u_endDate updates = Some (Some e) \<longrightarrow> dateOfText effectiveDate = Inr s \<longrightarrow>
                  getTime s \<le> getTime e)"
    and allEnd: "scope = ''all'' \<longrightarrow>
           (\<forall>e. u_endDate updates = Some (Some e) \<longrightarrow> getTime (startDate existing) \<le> getTime e)"
  shows "(\<forall>r\<in>set (recurringTransactions
                    (fst (editRecurringTransaction tz rejects i effectiveDate scope updates st))).
            seriesInvariant r) \<and>
         (\<forall>r\<in>set (recurringTransactions (fst (deleteRecurringTransaction tz i effectiveDate scope st))).
            seriesInvariant r) \<and>
         (\<forall>g. generateTransactionsFromRecurring tz rejects target m st = Inr g \<longrightarrow>
            (\<forall>r\<in>set (recurringTransactions (store g)). seriesInvariant r))"
proof (intro conjI)
  have fut: "\<forall>r\<in>set (recurringTransactions (updateRecurringTransaction i 
                 (noUpdate\<lparr>u_endDate := Some (Some (getPreviousDay d))\<rparr>) st)). seriesInvariant r"
    if "scope = ''future''" "checkEffectiveDate tz d existing = None"
  proof -
    from afterStart that have "getTime (startDate existing) \<le> getTime (getPreviousDay d)"
      by (simp add: getTime_getPreviousDay)
    then show ?thesis by (intro invariant_update[OF inv dist ex]) (simp add: seriesInvariant_endDate)
  qed
  show "\<forall>r\<in>set (recurringTransactions (fst (deleteRecurringTransaction tz i effectiveDate scope st))).
            seriesInvariant r"
  proof (cases "checkEffectiveDate tz d existing")
    case (Some e)
    then show ?thesis using inv parse ex by (simp add: deleteRecurringTransaction_def)
  next
    case None
    consider (single) "scope = ''single''" | (future) "scope = ''future''" | (all) "scope = ''all''"
      | (other) "scope \<noteq> ''single''" "scope \<noteq> ''future''" "scope \<noteq> ''all''" by blast
    then show ?thesis
    proof cases
      case single
      then show ?thesis using inv parse ex None 
        by (auto simp: deleteRecurringTransaction_def deleteTransaction_def split: option.splits)
    next
      case future
      then show ?thesis using fut[OF future None] parse ex None 
        by (simp add: deleteRecurringTransaction_def Let_def)
    next
      case all
      then show ?thesis using inv parse ex None 
        by (auto simp: deleteRecurringTransaction_def deleteRecurringTransactionRow_def)
    next
      case other
      then show ?thesis using inv parse ex None by (simp add: deleteRecurringTransaction_def)
    qed
  qed
  show "\<forall>r\<in>set (recurringTransactions
                    (fst (editRecurringTransaction tz rejects i effectiveDate scope updates st))).
            seriesInvariant r"
  proof (cases "checkEffectiveDate tz d existing")
    case (Some e)
    then show ?thesis using inv parse ex by (simp add: editRecurringTransaction_def)
  next
    case None
    consider (single) "scope = ''single''" | (future) "scope = ''future''" | (all) "scope = ''all''"
      | (other) "scope \<noteq> ''single''" "scope \<noteq> ''future''" "scope \<noteq> ''all''" by blast
    then show ?thesis
    proof cases
      case single
      then show ?thesis using inv parse ex None 
        by (auto simp: editRecurringTransaction_def updateTransaction_def createTransaction_def Let_def
                 split: option.splits sum.splits if_splits)
    next
      case future
      from dateOfText_parseDate[OF parse] obtain s where s: "dateOfText effectiveDate = Inr s" by blast
      have "seriesInvariant \<lparr>startDate = s, endDate = (case u_endDate updates of Some (Some e) \<Rightarrow> Some e | _ \<Rightarrow> None), 
               frequency = f, \<dots> = z\<rparr>" for f z
        using newEnd future s by (auto simp: seriesInvariant_def split: option.splits)
      then show ?thesis using fut[OF future None] parse ex None future s
        by (auto simp: editRecurringTransaction_def Let_def createRecurringTransaction_def seriesInvariant_def
                 split: prod.splits)
    next
      case all
      have "seriesInvariant (applyUpdate (noUpdate\<lparr>u_categoryId := u_categoryId updates, u_amount := u_amount updates,
                u_type := u_type updates, u_description := u_description updates,
                u_frequency := u_frequency updates,
                u_nextOccurrence :=
                  (case u_frequency updates of
                     Some f \<Rightarrow> Some (calculateNextOccurrence (fromStore tz (nextOccurrence existing)) f)
                   | None \<Rightarrow> None),
                u_endDate := u_endDate updates, u_isActive := u_isActive updates\<rparr>) existing)"
        using allEnd all inv getById_SomeD[OF ex]
        by (auto simp: seriesInvariant_def applyUpdate_def noUpdate_def split: option.splits)
      from invariant_update[OF inv dist ex this] show ?thesis using parse ex None all
        by (simp add: editRecurringTransaction_def Let_def)
    next
      case other
      then show ?thesis using inv parse ex None by (simp add: editRecurringTransaction_def)
    qed
  qed
  show "\<forall>g. generateTransactionsFromRecurring tz rejects target m st = Inr g \<longrightarrow>
            (\<forall>r\<in>set (recurringTransactions (store g)). seriesInvariant r)"
    using inv windows_generate[of tz rejects target m st] by (simp add: seriesInvariant_windows)
qed

text \<open>Splitting the daily series on 2026-01-15 in UTC, ending it on that day five hours
  west of UTC, and generating up to 2026-01-20 in UTC.\<close>

theorem series_window_preserved_witness:
  "list_all seriesInvariant (recurringTransactions splitStore) \<and>
   list_all seriesInvariant
     (recurringTransactions
        (fst (deleteRecurringTransaction utcMinus5 0 (wire (ymd 2026 1 15)) ''future'' dailyStore))) \<and>
   list_all seriesInvariant
     (recurringTransactions (storeAfterGenerate acceptAll (ymd 2026 1 20) dailyStore))"
proof -
  have inv: "\<forall>r\<in>set (recurringTransactions dailyStore). seriesInvariant r" by code_simp
  have dist: "distinct (map ident (recurringTransactions dailyStore))" by code_simp
  have p: "parseDate (wire (ymd 2026 1 15)) = Inr (ymd 2026 1 15)" by code_simp
  have e: "getRecurringTransactionById 0 dailyStore = Some dailySeries" by code_simp
  have n: "''future'' = ''future'' \<longrightarrow> checkEffectiveDate tz (ymd 2026 1 15) dailySeries = None \<longrightarrow>
           getTime (startDate dailySeries) < getTime (ymd 2026 1 15)" for tz
    by code_simp
  have u: "''future'' = ''future'' \<longrightarrow>
      (\<forall>e s. u_endDate (noUpdate\<lparr>u_amount := Some 150\<rparr>) = Some (Some e) \<longrightarrow>
           dateOfText (wire (ymd 2026 1 15)) = Inr s \<longrightarrow> getTime s \<le> getTime e)"
    "''future'' = ''all'' \<longrightarrow>
      (\<forall>e. u_endDate (noUpdate\<lparr>u_amount := Some 150\<rparr>) = Some (Some e) \<longrightarrow>
           getTime (startDate dailySeries) \<le> getTime e)"
    by (simp_all add: noUpdate_def)
  have t: "parseDate (wire (ymd 2026 1 20)) = Inr (ymd 2026 1 20)" by code_simp
  have g: "generateTransactionsFromRecurring 0 acceptAll (wire (ymd 2026 1 20)) 365 dailyStore =
      Inr (foldl (processRecurring 0 acceptAll (ymd 2026 1 20) 365)
             \<lparr>created = 0, skipped = 0, store = dailyStore, warnings = []\<rparr>
             (getDueRecurringTransactions (ymd 2026 1 20) dailyStore))"
    by (simp add: generateTransactionsFromRecurring_def t)
  from series_window_preserved[OF inv dist p e n u,
      where tz = 0 and rejects = acceptAll and target = "wire (ymd 2026 1 20)" and m = 365]
    series_window_preserved[OF inv dist p e n u,
      where tz = utcMinus5 and rejects = acceptAll and target = "wire (ymd 2026 1 20)" and m = 365]
  show ?thesis
    by (simp add: splitStore_def storeAfterGenerate_def g list_all_iff)
qed

text \<open>
  C2. The daily series that starts on 2026-01-01 with no end date is split on 2026-01-15
  with a new amount of 150. The original series then ends on 2026-01-14 and the new series
  starts on 2026-01-15 with the amount 150, as stated; but the new series is created with
  its \<^verbatim>\<open>nextOccurrence\<close> one day after its start, so generating up to 2026-01-14 and then
  up to 2026-01-20 gives the entries of 2026-01-01 to 2026-01-14 at the old amount and those
  of 2026-01-16 to 2026-01-20 at 150: nothing is generated for 2026-01-15.
\<close>

theorem split_series_generation:
  "map (\<lambda>r. (ident r, startDate r, endDate r, amount r, nextOccurrence r))
       (recurringTransactions splitStore) =
     [(0, ymd 2026 1 1, Some (ymd 2026 1 14), 100, ymd 2026 1 1),
      (1, ymd 2026 1 15, None, 150, ymd 2026 1 16)] \<and>
   map (\<lambda>t. (date t, t_amount t))
       (transactions (storeAfterGenerate acceptAll (ymd 2026 1 20)
                        (storeAfterGenerate acceptAll (ymd 2026 1 14) splitStore))) =
     map (\<lambda>k. (ymd 2026 1 k, 100)) [1, 2, 3, 4, 5, 6, 7, 8, 9, 10, 11, 12, 13, 14] @
     map (\<lambda>k. (ymd 2026 1 k, 150)) [16, 17, 18, 19, 20]"
  by code_simp

section \<open>Generation\<close>

lemma findOverride_findEntry: "findEntry tz uid d rid st = None \<Longrightarrow> findOverride tz uid d rid st = None"
  by (auto simp: findEntry_def findOverride_def find_None_iff)

lemma valid_in_window: 
  "isDateValidOccurrence d r \<Longrightarrow> getTime (startDate r) \<le> getTime d \<and> \<not> afterEnd d (endDate r)"
  by (auto simp: isDateValidOccurrence_def split: if_splits)

text \<open>
  C8. In every time zone: when the loop stands on a valid occurrence of the series (as the
  service reads the series in its zone) for which the find-before-create queries find no
  entry and the store rejects the entry, \<open>processDateForRecurring\<close> reports the date as
  skipped, leaves the store as it is and names the next calendar date; the loop counts one
  skip and goes on from that date (or stops at the catch-up limit) exactly as after a
  successful date. \<open>generateTransactionsFromRecurring\<close> has no outcome for a per-date
  failure: for every target date that parses it returns its counters.
\<close>

theorem creation_failure_is_skipped:
  assumes "isDateValidOccurrence (currentDate s) (localRecurrence tz r)"
    and "findEntry tz (userId r) (currentDate s) (ident r) (store s) = None"
    and "rejects (generatedInput r (currentDate s))"
    and "walkGuard e m s"
  shows "processDateForRecurring tz rejects (currentDate s) r (store s) =
           (\<lparr>p_created = False, p_skipped = True,
             p_nextOccurrence = Some (calculateNextOccurrence (currentDate s) (frequency r))\<rparr>,
            store s) \<and>
         walk tz rejects r e m s =
           (let s' = s\<lparr>skipped := skipped s + 1,
                       currentDate := calculateNextOccurrence (currentDate s) (frequency r),
                       processedCount := processedCount s + 1\<rparr>
            in if m \<le> processedCount s' then s'\<lparr>warnings := warnings s' @ [ident r]\<rparr>
               else walk tz rejects r e m s') \<and>
         (\<forall>targetDate target maxCatchUpDays st. parseDate targetDate = Inr target \<longrightarrow>
            (\<exists>g. generateTransactionsFromRecurring tz rejects targetDate maxCatchUpDays st = Inr g))"
proof (intro conjI)
  show pd: "processDateForRecurring tz rejects (currentDate s) r (store s) =
           (\<lparr>p_created = False, p_skipped = True,
             p_nextOccurrence = Some (calculateNextOccurrence (currentDate s) (frequency r))\<rparr>,
            store s)"
    using assms(1,2,3) findOverride_findEntry[OF assms(2)]
    by (simp add: processDateForRecurring_def createTransaction_def generatedInput_def)
  from valid_in_window[OF assms(1)] pd
  have wb: "walkBody tz rejects r s =
      (s\<lparr>skipped := skipped s + 1,
         currentDate := calculateNextOccurrence (currentDate s) (frequency r),
         processedCount := processedCount s + 1\<rparr>, True)"
    by (simp add: walkBody_def Let_def)
  show "walk tz rejects r e m s =
           (let s' = s\<lparr>skipped := skipped s + 1,
                       currentDate := calculateNextOccurrence (currentDate s) (frequency r),
                       processedCount := processedCount s + 1\<rparr>
            in if m \<le> processedCount s' then s'\<lparr>warnings := warnings s' @ [ident r]\<rparr>
               else walk tz rejects r e m s')"
    using assms(4) wb by (subst walk.simps) (simp add: walkGuard_def Let_def)
  show "\<forall>targetDate target maxCatchUpDays st. parseDate targetDate = Inr target \<longrightarrow>
            (\<exists>g. generateTransactionsFromRecurring tz rejects targetDate maxCatchUpDays st = Inr g)"
    by (simp add: generateTransactionsFromRecurring_def)
qed

text \<open>Two daily series and a store that rejects the entries of 2026-01-02: each series
  gets its entries of 2026-01-01 and 2026-01-03, and the two failures are counted as
  skipped.\<close>

theorem creation_failure_is_skipped_witness:
  "processDateForRecurring 0 rejectJan2 (ymd 2026 1 2) dailySeries twoSeriesStore =
     (\<lparr>p_created = False, p_skipped = True, p_nextOccurrence = Some (ymd 2026 1 3)\<rparr>,
      twoSeriesStore) \<and>
   created (runGenerate rejectJan2 (ymd 2026 1 3) twoSeriesStore) = 4 \<and>
   skipped (runGenerate rejectJan2 (ymd 2026 1 3) twoSeriesStore) = 2 \<and>
   map (\<lambda>t. (recurringTransactionId t, date t))
     (transactions (store (runGenerate rejectJan2 (ymd 2026 1 3) twoSeriesStore))) =
     [(Some 0, ymd 2026 1 1), (Some 0, ymd 2026 1 3),
      (Some 1, ymd 2026 1 1), (Some 1, ymd 2026 1 3)]"
proof -
  have h: "isDateValidOccurrence (currentDate jan2State) (localRecurrence 0 dailySeries)"
    "findEntry 0 (userId dailySeries) (currentDate jan2State) (ident dailySeries) (store jan2State) = None"
    "rejectJan2 (generatedInput dailySeries (currentDate jan2State))"
    "walkGuard (ymd 2026 1 3) 365 jan2State"
    by code_simp+
  have c: "currentDate jan2State = ymd 2026 1 2" "store jan2State = twoSeriesStore"
    by (simp_all add: jan2State_def)
  have n: "calculateNextOccurrence (ymd 2026 1 2) (frequency dailySeries) = ymd 2026 1 3"
    by code_simp
  have g: "created (runGenerate rejectJan2 (ymd 2026 1 3) twoSeriesStore) = 4"
    "skipped (runGenerate rejectJan2 (ymd 2026 1 3) twoSeriesStore) = 2"
    "map (\<lambda>t. (recurringTransactionId t, date t))
      (transactions (store (runGenerate rejectJan2 (ymd 2026 1 3) twoSeriesStore))) =
      [(Some 0, ymd 2026 1 1), (Some 0, ymd 2026 1 3),
       (Some 1, ymd 2026 1 1), (Some 1, ymd 2026 1 3)]"
    by code_simp+
  from creation_failure_is_skipped[where tz = 0 and rejects = rejectJan2 and s = jan2State
      and r = dailySeries and e = "ymd 2026 1 3" and m = 365, OF h] g
  show ?thesis unfolding c n by simp
qed

subsection \<open>The stored pointer\<close>

lemma applyUpdate_pointer [simp]:
  "applyUpdate (noUpdate\<lparr>u_nextOccurrence := Some p\<rparr>) x = x\<lparr>nextOccurrence := p\<rparr>"
  by (simp add: applyUpdate_def noUpdate_def)

lemma findNextValidOccurrence_valid:
  "findNextValidOccurrence c r n = Some v \<Longrightarrow> isDateValidOccurrence v r"
  by (auto simp: findNextValidOccurrence_def Let_def split: if_splits dest: findLoop_Some)

lemma rows_pointer_update:
  "recurringTransactions (updateRecurringTransaction i (noUpdate\<lparr>u_nextOccurrence := Some p\<rparr>) st) =
   map (\<lambda>x. if ident x = i then x\<lparr>nextOccurrence := p\<rparr> else x) (recurringTransactions st)"
  by (simp add: updateRecurringTransaction_def)

text \<open>The pointer that the end of \<open>catchUp\<close> writes, if any, is a valid occurrence of the
  series as the service reads it in its zone: in UTC and east of it, of the series as it
  is stored.\<close>

lemma nextOccurrenceToStore_valid_local:
  "nextOccurrenceToStore tz r e s = Some p \<Longrightarrow> isDateValidOccurrence p (localRecurrence tz r)"
  by (auto simp: nextOccurrenceToStore_def Let_def findNextValidOccurrence_valid
           split: option.splits if_splits)

lemma nextOccurrenceToStore_valid:
  "0 \<le> tz \<Longrightarrow> nextOccurrenceToStore tz r e s = Some p \<Longrightarrow> isDateValidOccurrence p r"
  using nextOccurrenceToStore_valid_local[of tz r e s p] by simp

lemma catchUp_walkStart:
  "catchUp tz rejects e m r v g =
     (let s = walk tz rejects r e m (walkStart g v)
      in case nextOccurrenceToStore tz r e s of
           Some d \<Rightarrow>
             (GenState.truncate s)
               \<lparr>store := updateRecurringTransaction (ident r)
                           (noUpdate\<lparr>u_nextOccurrence := Some d\<rparr>) (store s)\<rparr>
         | None \<Rightarrow> GenState.truncate s)"
  by (simp add: catchUp_def walkStart_def)

lemma store_walkStart [simp]: "store (walkStart g v) = store g"
  by (simp add: walkStart_def)

lemma catchUp_rows:
  "recurringTransactions (store (catchUp tz rejects e m r v g)) = 
   pointerRows r (nextOccurrenceToStore tz r e (walk tz rejects r e m (walkStart g v)))
     (recurringTransactions (store g))"
  by (simp add: catchUp_walkStart Let_def pointerRows_def rows_pointer_update rows_walk split: option.splits)

lemma processRecurring_cases [consumes 1, case_names inactive notDue selfHeal catchUp]:
  assumes east: "0 \<le> tz"
  obtains
    (inactive) "\<not> isActive r" 
      "\<And>g. processRecurring tz rejects target m g r = g\<lparr>skipped := skipped g + 1\<rparr>"
  | (notDue) "isActive r" "getTime (nextOccurrence r) > getTime (effectiveEndDate tz r target)"
      "\<And>g. processRecurring tz rejects target m g r = g\<lparr>skipped := skipped g + 1\<rparr>"
  | (selfHeal) "isActive r" "\<not> getTime (nextOccurrence r) > getTime (effectiveEndDate tz r target)"
      "\<not> isDateValidOccurrence (nextOccurrence r) r"
      "\<forall>nv. findNextValidOccurrence (nextOccurrence r) r 100 = Some nv \<longrightarrow> 
            getTime nv > getTime (effectiveEndDate tz r target)"
      "\<And>g. processRecurring tz rejects target m g r = 
         g\<lparr>store := updateRecurringTransaction (ident r)
                         (noUpdate\<lparr>u_nextOccurrence :=
                            Some (calculateNextOccurrence (nextOccurrence r) (frequency r))\<rparr>)
                         (store g),
           skipped := skipped g + 1\<rparr>"
  | (catchUp) v where "isActive r" "\<not> getTime (nextOccurrence r) > getTime (effectiveEndDate tz r target)"
      "(isDateValidOccurrence (nextOccurrence r) r \<and> v = nextOccurrence r) \<or>
       (\<not> isDateValidOccurrence (nextOccurrence r) r \<and> 
        findNextValidOccurrence (nextOccurrence r) r 100 = Some v)"
      "\<not> getTime v > getTime (effectiveEndDate tz r target)"
      "\<And>g. processRecurring tz rejects target m g r = 
         catchUp tz rejects (effectiveEndDate tz r target) m r v g"
proof (cases "isActive r")
  case False
  then show ?thesis by (intro inactive) (simp_all add: processRecurring_def)
next
  case True
  show ?thesis
  proof (cases "getTime (nextOccurrence r) > getTime (effectiveEndDate tz r target)")
    case gt: True
    then show ?thesis using True east by (intro notDue) (simp_all add: processRecurring_def Let_def)
  next
    case False
    show ?thesis
    proof (cases "isDateValidOccurrence (nextOccurrence r) r")
      case v: True
      show ?thesis using True False v east
        by (intro catchUp[of "nextOccurrence r"]) (simp_all add: processRecurring_def Let_def)
    next
      case inv: False
      show ?thesis
      proof (cases "findNextValidOccurrence (nextOccurrence r) r 100")
        case None
        show ?thesis using True False inv None east
          by (intro selfHeal) (simp_all add: processRecurring_def Let_def)
      next
        case (Some nv)
        show ?thesis
        proof (cases "getTime nv > getTime (effectiveEndDate tz r target)")
          case True
          show ?thesis using \<open>isActive r\<close> False inv Some True east
            by (intro selfHeal) (simp_all add: processRecurring_def Let_def)
        next
          case le: False
          show ?thesis using \<open>isActive r\<close> False inv Some le east
            by (intro catchUp[of nv]) (simp_all add: processRecurring_def Let_def)
        qed
      qed
    qed
  qed
qed

lemma processRecurring_rows:
  assumes east: "0 \<le> tz"
  shows "\<exists>p. recurringTransactions (store (processRecurring tz rejects target m g r)) =
          pointerRows r p (recurringTransactions (store g)) \<and>
       (case p of None \<Rightarrow> True | Some d \<Rightarrow> isDateValidOccurrence d r \<or>
         (\<not> isDateValidOccurrence (nextOccurrence r) r \<and>
          d = calculateNextOccurrence (nextOccurrence r) (frequency r)))"
  using east
proof (cases rule: processRecurring_cases[where r = r and rejects = rejects and target = target and m = m])
  case inactive
  show ?thesis unfolding inactive(2) by (rule exI[of _ None]) (simp add: pointerRows_def)
next
  case notDue
  show ?thesis unfolding notDue(3) by (rule exI[of _ None]) (simp add: pointerRows_def)
next
  case selfHeal
  show ?thesis unfolding selfHeal(5) using selfHeal(3)
    by (intro exI[of _ "Some (calculateNextOccurrence (nextOccurrence r) (frequency r))"]) 
       (simp add: pointerRows_def rows_pointer_update)
next
  case (catchUp v)
  show ?thesis unfolding catchUp(5) catchUp_rows
    by (rule exI[of _ "nextOccurrenceToStore tz r (effectiveEndDate tz r target) 
                         (walk tz rejects r (effectiveEndDate tz r target) m (walkStart g v))"])
       (auto split: option.splits dest: nextOccurrenceToStore_valid[OF east])
qed

lemma pointerStep_refl: "pointerStep x x"
  by (simp add: pointerStep_def)

lemma pointerStep_ident: "pointerStep x x' \<Longrightarrow> ident x' = ident x"
  by (auto simp: pointerStep_def) (metis (no_types) RecurringTransaction.select_convs RecurringTransaction.surjective RecurringTransaction.update_convs)

lemma foldl_pointerStep:
  assumes east: "0 \<le> tz"
    and "distinct (map ident rows0)" and "set rs \<subseteq> set rows0" and "distinct (map ident rs)"
    and "list_all2 (\<lambda>x x'. pointerStep x x' \<and> (ident x \<in> ident ` set rs \<longrightarrow> x' = x)) rows0
           (recurringTransactions (store g))"
  shows "list_all2 pointerStep rows0
           (recurringTransactions (store (foldl (processRecurring tz rejects target m) g rs)))"
  using assms(3-)
proof (induction rs arbitrary: g)
  case Nil
  then show ?case by (auto elim: list_all2_mono)
next
  case (Cons r rs)
  from processRecurring_rows[OF east, of rejects target m g r] obtain p where
    rows: "recurringTransactions (store (processRecurring tz rejects target m g r)) =
          pointerRows r p (recurringTransactions (store g))"
    and p: "case p of None \<Rightarrow> True | Some d \<Rightarrow> isDateValidOccurrence d r \<or>
         (\<not> isDateValidOccurrence (nextOccurrence r) r \<and>
          d = calculateNextOccurrence (nextOccurrence r) (frequency r))" by blast
  have r0: "r \<in> set rows0" and nr: "ident r \<notin> ident ` set rs" using Cons.prems by auto
  have inj: "inj_on ident (set rows0)" using assms(2) by (simp add: distinct_map)
  have "list_all2 (\<lambda>x x'. pointerStep x x' \<and> (ident x \<in> ident ` set rs \<longrightarrow> x' = x)) rows0
           (recurringTransactions (store (processRecurring tz rejects target m g r)))"
  proof (cases p)
    case None
    then show ?thesis unfolding rows pointerRows_def using Cons.prems(3)
      by (auto elim!: list_all2_mono)
  next
    case (Some d)
    have "list_all2 (\<lambda>x y. pointerStep x (if ident y = ident r then y\<lparr>nextOccurrence := d\<rparr> else y) \<and> 
             (ident x \<in> ident ` set rs \<longrightarrow> (if ident y = ident r then y\<lparr>nextOccurrence := d\<rparr> else y) = x)) 
           rows0 (recurringTransactions (store g))"
    proof (rule list.rel_mono_strong[OF Cons.prems(3)], goal_cases)
      case (1 x y)
      then have xy: "pointerStep x y" "ident x \<in> ident ` set (r # rs) \<longrightarrow> y = x" "x \<in> set rows0" by auto
      show ?case
      proof (cases "ident y = ident r")
        case True
        with pointerStep_ident[OF xy(1)] have "ident x = ident r" by simp
        with inj r0 xy(3) have "x = r" by (auto dest: inj_onD)
        with xy(2) have "y = r" by simp
        show ?thesis using True \<open>x = r\<close> \<open>y = r\<close> nr p Some by (auto simp: pointerStep_def)
      next
        case False
        with pointerStep_ident[OF xy(1)] have "ident x \<noteq> ident r" by simp
        then show ?thesis using False xy by auto
      qed
    qed
    then show ?thesis unfolding rows pointerRows_def Some by (simp add: list_all2_map2)
  qed
  from Cons.IH[OF _ _ this] Cons.prems show ?case by simp
qed

text \<open>
  C1 (as stated, refuted). A daily series generates its first day and is then changed to
  weekly for the whole series; the edit moves the pointer to Friday 2026-01-09 although the
  series started on a Thursday. The next generation run finds no valid occurrence within
  its hundred advances and stores the plain advance 2026-01-16, which is not a valid
  occurrence of the series.

  West of UTC the end of the walk writes such a pointer too. The stored dates are read one
  day early there, so the walk of the weekly series that starts on Thursday 2026-01-01
  runs over the Wednesdays: in UTC-5 a run to 2026-01-10 creates the entries of 2025-12-31
  and 2026-01-07 and stores the pointer 2026-01-14, a Wednesday.
\<close>

theorem stored_pointer_counterexample:
  "map (\<lambda>r. (frequency r, startDate r, nextOccurrence r)) (recurringTransactions desyncStore) =
     [(Weekly, ymd 2026 1 1, ymd 2026 1 9)] \<and>
   map (\<lambda>r. (nextOccurrence r, isDateValidOccurrence (nextOccurrence r) r))
     (recurringTransactions (storeAfterGenerate acceptAll (ymd 2026 1 10) desyncStore)) =
     [(ymd 2026 1 16, False)] \<and>
   map date (transactions (store (runGenerateIn utcMinus5 acceptAll (ymd 2026 1 10) weeklyStore))) =
     [ymd 2025 12 31, ymd 2026 1 7] \<and>
   map (\<lambda>r. (startDate r, nextOccurrence r, isDateValidOccurrence (nextOccurrence r) r))
     (recurringTransactions (store (runGenerateIn utcMinus5 acceptAll (ymd 2026 1 10) weeklyStore))) =
     [(ymd 2026 1 1, ymd 2026 1 14, False)]"
  by code_simp

text \<open>
  C1 (amended). In UTC and east of it, a generation run on a store whose series have
  distinct identifiers changes nothing of a series but its \<^verbatim>\<open>nextOccurrence\<close>, and the
  pointer it leaves is the one it found, or a valid occurrence of the series, or, on the
  self-healing path, the plain calendar advance of a pointer that was not a valid
  occurrence. The pointer is never removed.
\<close>

theorem stored_pointer_after_generate:
  assumes "0 \<le> tz"
    and "distinct (map ident (recurringTransactions st))"
    and "generateTransactionsFromRecurring tz rejects targetDate m st = Inr g"
  shows "list_all2 pointerStep (recurringTransactions st) (recurringTransactions (store g))"
proof -
  from assms(3) obtain target where t: "parseDate targetDate = Inr target"
    and g: "g = foldl (processRecurring tz rejects target m)
                 \<lparr>created = 0, skipped = 0, store = st, warnings = []\<rparr>
                 (getDueRecurringTransactions target st)"
    by (auto simp: generateTransactionsFromRecurring_def split: sum.splits)
  have s: "set (getDueRecurringTransactions target st) \<subseteq> set (recurringTransactions st)"
    by (auto simp: getDueRecurringTransactions_def)
  have "distinct (recurringTransactions st)" "inj_on ident (set (recurringTransactions st))" 
    using assms(2) by (simp_all add: distinct_map)
  then have d: "distinct (map ident (getDueRecurringTransactions target st))"
    unfolding distinct_map using s by (auto simp: getDueRecurringTransactions_def intro: inj_on_subset)
  have "list_all2 (\<lambda>x x'. pointerStep x x' \<and> (ident x \<in> ident ` set (getDueRecurringTransactions target st) \<longrightarrow> x' = x))
          (recurringTransactions st) (recurringTransactions st)"
    by (simp add: list.rel_refl pointerStep_refl)
  from foldl_pointerStep[OF assms(1,2) s d, of "\<lparr>created = 0, skipped = 0, store = st, warnings = []\<rparr>" rejects target m]
    this show ?thesis unfolding g by simp
qed

text \<open>The run of the counterexample, and a run that catches up the daily series.\<close>

theorem stored_pointer_after_generate_witness:
  "list_all2 pointerStep (recurringTransactions desyncStore)
     (recurringTransactions (storeAfterGenerate acceptAll (ymd 2026 1 10) desyncStore)) \<and>
   list_all2 pointerStep (recurringTransactions dailyStore)
     (recurringTransactions (storeAfterGenerate acceptAll (ymd 2026 1 10) dailyStore))"
proof -
  have t: "parseDate (wire (ymd 2026 1 10)) = Inr (ymd 2026 1 10)" by code_simp
  have g: "generateTransactionsFromRecurring 0 acceptAll (wire (ymd 2026 1 10)) 365 st =
      Inr (foldl (processRecurring 0 acceptAll (ymd 2026 1 10) 365)
             \<lparr>created = 0, skipped = 0, store = st, warnings = []\<rparr>
             (getDueRecurringTransactions (ymd 2026 1 10) st))" for st
    by (simp add: generateTransactionsFromRecurring_def t)
  have d: "distinct (map ident (recurringTransactions desyncStore))"
    "distinct (map ident (recurringTransactions dailyStore))" by code_simp+
  from stored_pointer_after_generate[OF order_refl d(1) g]
    stored_pointer_after_generate[OF order_refl d(2) g]
  show ?thesis by (simp add: storeAfterGenerate_def g)
qed

section \<open>Generation in UTC\<close>

text \<open>In UTC the service reads every date as it is stored, and a local midnight is the
  UTC midnight of its day.\<close>

lemma processDateForRecurring_utc:
  "processDateForRecurring 0 rejects date' recurring st =
     (if \<not> isDateValidOccurrence date' recurring then
        (let nextValid = findNextValidOccurrence date' recurring 100
         in (\<lparr>p_created = False, p_skipped = True, p_nextOccurrence = nextValid\<rparr>, st))
      else if findOverride 0 (userId recurring) date' (ident recurring) st \<noteq> None then
        (\<lparr>p_created = False, p_skipped = True,
          p_nextOccurrence = Some (calculateNextOccurrence date' (frequency recurring))\<rparr>, st)
      else if findEntry 0 (userId recurring) date' (ident recurring) st \<noteq> None then
        (\<lparr>p_created = False, p_skipped = True,
          p_nextOccurrence = Some (calculateNextOccurrence date' (frequency recurring))\<rparr>, st)
      else
        (case createTransaction rejects
                \<lparr>t_userId = userId recurring, t_categoryId = categoryId recurring,
                 t_amount = amount recurring, t_type = txType recurring,
                 t_description = description recurring, date = date',
                 recurringTransactionId = Some (ident recurring), isOverride = False\<rparr> st of
           Inr st' \<Rightarrow>
             (\<lparr>p_created = True, p_skipped = False,
               p_nextOccurrence = Some (calculateNextOccurrence date' (frequency recurring))\<rparr>, st')
         | Inl e \<Rightarrow>
             (\<lparr>p_created = False, p_skipped = True,
               p_nextOccurrence = Some (calculateNextOccurrence date' (frequency recurring))\<rparr>, st)))"
  by (simp add: processDateForRecurring_def)

lemma walkBody_utc:
  "walkBody 0 rejects recurring s =
     (if afterEnd (currentDate s) (endDate recurring) then (s, False)
      else
        (let cur = (if getTime (currentDate s) < getTime (startDate recurring)
                    then startDate recurring else currentDate s);
             (result, st') = processDateForRecurring 0 rejects cur recurring (store s);
             s1 = (if p_created result
                   then s\<lparr>currentDate := cur, store := st', created := created s + 1,
                          lastProcessedDate := Some cur\<rparr>
                   else s\<lparr>currentDate := cur, store := st', skipped := skipped s + 1\<rparr>)
         in case p_nextOccurrence result of
              None \<Rightarrow> (s1, False)
            | Some nxt \<Rightarrow>
                (s1\<lparr>currentDate := nxt, processedCount := processedCount s + 1\<rparr>, True)))"
  by (simp add: walkBody_def)

lemma nextOccurrenceToStore_utc:
  "nextOccurrenceToStore 0 recurring e s =
     (case lastProcessedDate s of
        Some lastProcessed \<Rightarrow>
          (let calculatedNext = calculateNextOccurrence lastProcessed (frequency recurring)
           in if isDateValidOccurrence calculatedNext recurring then Some calculatedNext
              else findNextValidOccurrence calculatedNext recurring 100)
      | None \<Rightarrow>
          if processedCount s > 0 then
            (if isDateValidOccurrence (currentDate s) recurring then Some (currentDate s)
             else findNextValidOccurrence (currentDate s) recurring 100)
          else if getTime (currentDate s) \<le> getTime e then
            (if getTime (currentDate s) \<noteq> getTime (nextOccurrence recurring) then
               (if isDateValidOccurrence (currentDate s) recurring then Some (currentDate s)
                else findNextValidOccurrence (currentDate s) recurring 100)
             else None)
          else None)"
  by (cases "lastProcessedDate s") (auto simp: nextOccurrenceToStore_def Let_def)

lemma effectiveEndDate_utc:
  "effectiveEndDate 0 recurring target =
     (case endDate recurring of
        Some e \<Rightarrow> if getTime e < getTime target then e else target
      | None \<Rightarrow> target)"
  by (simp add: effectiveEndDate_east)

lemma processRecurring_utc:
  "processRecurring 0 rejects target maxCatchUpDays g recurring =
     (if \<not> isActive recurring then g\<lparr>skipped := skipped g + 1\<rparr>
      else
        (let currentDate' = nextOccurrence recurring
         in if getTime currentDate' > getTime (effectiveEndDate 0 recurring target)
            then g\<lparr>skipped := skipped g + 1\<rparr>
            else if \<not> isDateValidOccurrence currentDate' recurring then
              (case findNextValidOccurrence currentDate' recurring 100 of
                 Some nextValid \<Rightarrow>
                   if getTime nextValid > getTime (effectiveEndDate 0 recurring target) then
                     g\<lparr>store := updateRecurringTransaction (ident recurring)
                           (noUpdate\<lparr>u_nextOccurrence :=
                              Some (calculateNextOccurrence currentDate' (frequency recurring))\<rparr>)
                           (store g),
                       skipped := skipped g + 1\<rparr>
                   else catchUp 0 rejects (effectiveEndDate 0 recurring target) maxCatchUpDays
                          recurring nextValid g
               | None \<Rightarrow>
                   g\<lparr>store := updateRecurringTransaction (ident recurring)
                         (noUpdate\<lparr>u_nextOccurrence :=
                            Some (calculateNextOccurrence currentDate' (frequency recurring))\<rparr>)
                         (store g),
                     skipped := skipped g + 1\<rparr>)
            else catchUp 0 rejects (effectiveEndDate 0 recurring target) maxCatchUpDays
                   recurring currentDate' g))"
  by (auto simp: processRecurring_def Let_def split: option.splits)

lemma processRecurring_cases_utc [case_names inactive notDue selfHeal catchUp]:
  obtains
    (inactive) "\<not> isActive r" 
      "\<And>g. processRecurring 0 rejects target m g r = g\<lparr>skipped := skipped g + 1\<rparr>"
  | (notDue) "isActive r" "getTime (nextOccurrence r) > getTime (effectiveEndDate 0 r target)"
      "\<And>g. processRecurring 0 rejects target m g r = g\<lparr>skipped := skipped g + 1\<rparr>"
  | (selfHeal) "isActive r" "\<not> getTime (nextOccurrence r) > getTime (effectiveEndDate 0 r target)"
      "\<not> isDateValidOccurrence (nextOccurrence r) r"
      "\<forall>nv. findNextValidOccurrence (nextOccurrence r) r 100 = Some nv \<longrightarrow> 
            getTime nv > getTime (effectiveEndDate 0 r target)"
      "\<And>g. processRecurring 0 rejects target m g r = 
         g\<lparr>store := updateRecurringTransaction (ident r)
                         (noUpdate\<lparr>u_nextOccurrence :=
                            Some (calculateNextOccurrence (nextOccurrence r) (frequency r))\<rparr>)
                         (store g),
           skipped := skipped g + 1\<rparr>"
  | (catchUp) v where "isActive r" "\<not> getTime (nextOccurrence r) > getTime (effectiveEndDate 0 r target)"
      "(isDateValidOccurrence (nextOccurrence r) r \<and> v = nextOccurrence r) \<or>
       (\<not> isDateValidOccurrence (nextOccurrence r) r \<and> 
        findNextValidOccurrence (nextOccurrence r) r 100 = Some v)"
      "\<not> getTime v > getTime (effectiveEndDate 0 r target)"
      "\<And>g. processRecurring 0 rejects target m g r = 
         catchUp 0 rejects (effectiveEndDate 0 r target) m r v g"
  using order_refl[of "0::int"]
  by (cases rule: processRecurring_cases[where r = r and rejects = rejects and target = target and m = m])
     blast+

section \<open>One date and one pass through the loop\<close>

lemma findOverride_hasEntry: 
  "findOverride 0 (userId r) d (ident r) st \<noteq> None \<Longrightarrow> hasEntry 0 r d st"
  using findOverride_findEntry[of 0 "userId r" d "ident r" st] by (cases "findEntry 0 (userId r) d (ident r) st") (auto simp: hasEntry_def)

lemma hasEntry_iff:
  "hasEntry 0 r d st \<longleftrightarrow> (\<exists>t\<in>set (transactions st). t_userId t = userId r \<and> 
      getTime (date t) = getTime d \<and> recurringTransactionId t = Some (ident r))"
  by (auto simp: hasEntry_def findEntry_utc find_None_iff)

lemma processDate_eq:
  "processDateForRecurring 0 rejects d r st =
     (if \<not> isDateValidOccurrence d r 
      then (\<lparr>p_created = False, p_skipped = True, 
             p_nextOccurrence = findNextValidOccurrence d r 100\<rparr>, st)
      else if hasEntry 0 r d st \<or> rejects (generatedInput r d)
      then (\<lparr>p_created = False, p_skipped = True, 
             p_nextOccurrence = Some (calculateNextOccurrence d (frequency r))\<rparr>, st)
      else (\<lparr>p_created = True, p_skipped = False, 
             p_nextOccurrence = Some (calculateNextOccurrence d (frequency r))\<rparr>, 
            st\<lparr>transactions := transactions st @ [generatedEntry r d (nextId st)],
               nextId := nextId st + 1\<rparr>))"
proof -
  have "findOverride 0 (userId r) d (ident r) st \<noteq> None \<or> findEntry 0 (userId r) d (ident r) st \<noteq> None
        \<longleftrightarrow> hasEntry 0 r d st"
    using findOverride_hasEntry[of r d st] by (auto simp: hasEntry_def)
  then show ?thesis
    by (auto simp: processDateForRecurring_utc Let_def createTransaction_def generatedInput_def
          generatedEntry_def hasEntry_def)
qed

text \<open>The body of the loop on a state whose date is not before the start date.\<close>

lemma walkBody_eq:
  assumes "getTime (startDate r) \<le> getTime (currentDate s)"
  shows "walkBody 0 rejects r s =
     (if afterEnd (currentDate s) (endDate r) then (s, False)
      else if \<not> isDateValidOccurrence (currentDate s) r then
        (case findNextValidOccurrence (currentDate s) r 100 of
           None \<Rightarrow> (s\<lparr>skipped := skipped s + 1\<rparr>, False)
         | Some nxt \<Rightarrow> (s\<lparr>skipped := skipped s + 1, currentDate := nxt, 
                           processedCount := processedCount s + 1\<rparr>, True))
      else if hasEntry 0 r (currentDate s) (store s) \<or> rejects (generatedInput r (currentDate s)) then
        (s\<lparr>skipped := skipped s + 1, 
           currentDate := calculateNextOccurrence (currentDate s) (frequency r),
           processedCount := processedCount s + 1\<rparr>, True)
      else
        (s\<lparr>store := (store s)\<lparr>transactions := transactions (store s) @ 
                         [generatedEntry r (currentDate s) (nextId (store s))],
                       nextId := nextId (store s) + 1\<rparr>,
           created := created s + 1,
           lastProcessedDate := Some (currentDate s),
           currentDate := calculateNextOccurrence (currentDate s) (frequency r),
           processedCount := processedCount s + 1\<rparr>, True))"
  using assms
  by (simp add: walkBody_utc processDate_eq Let_def split: option.splits)

lemma iterNext_Suc_right:
  "iterNext r (Suc k) d = calculateNextOccurrence (iterNext r k d) (frequency r)"
  by (induction k arbitrary: d) simp_all

lemma iterNext_validDate: "validDate c \<Longrightarrow> validDate (iterNext r k c)"
proof (cases k)
  case 0 then show "validDate c \<Longrightarrow> ?thesis" by simp
next
  case (Suc j) 
  show ?thesis unfolding Suc iterNext_Suc_right by (rule validDate_calculateNextOccurrence)
qed

lemma chain_increasing:
  "\<forall>j<k. chainStep r c j \<Longrightarrow> getTime c \<le> getTime (iterNext r k c)"
proof (induction k)
  case 0 then show ?case by simp
next
  case (Suc k)
  then have "getTime c \<le> getTime (iterNext r k c)" by simp
  moreover from Suc.prems have "getTime (iterNext r k c) < getTime (iterNext r (Suc k) c)"
    by (simp add: chainStep_def del: iterNext.simps)
  ultimately show ?case by simp
qed

lemma findNextValidOccurrence_Some:
  assumes "findNextValidOccurrence c r n = Some v"
  shows "isDateValidOccurrence v r" and "getTime c \<le> getTime v" 
    and "validDate c \<Longrightarrow> getTime (startDate r) \<le> getTime c \<Longrightarrow> validDate v"
    and "validDate c \<Longrightarrow> validDate (startDate r) \<Longrightarrow> validDate v"
proof -
  from assms have fl: "findLoop r n (clampToStart c r) 0 = Some v"
    by (simp add: findNextValidOccurrence_def clampToStart_def Let_def split: if_splits)
  from findLoop_Some[OF fl] obtain k where k: "v = iterNext r k (clampToStart c r)" 
    "isDateValidOccurrence v r" "\<forall>j<k. chainStep r (clampToStart c r) j" by auto
  show "isDateValidOccurrence v r" by fact
  have "getTime c \<le> getTime (clampToStart c r)" by (simp add: clampToStart_def)
  with chain_increasing[OF k(3)] k(1) show "getTime c \<le> getTime v" by simp
  show "validDate v" if "validDate c" "getTime (startDate r) \<le> getTime c"
    using that k(1) by (simp add: clampToStart_def iterNext_validDate)
  show "validDate v" if "validDate c" "validDate (startDate r)"
    using that k(1) by (simp add: clampToStart_def iterNext_validDate)
qed

lemma findNextValidOccurrence_afterEnd:
  "getTime (startDate r) \<le> getTime c \<Longrightarrow> afterEnd c (endDate r) \<Longrightarrow> 
   findNextValidOccurrence c r n = None"
  by (simp add: findNextValidOccurrence_def Let_def)

lemma afterEnd_invalid: "afterEnd c (endDate r) \<Longrightarrow> \<not> isDateValidOccurrence c r"
  by (simp add: isDateValidOccurrence_def)

lemma walkBody_True:
  assumes "walkBody 0 rejects r s = (s', True)" and "walkInv r s"
  shows "walkInv r s'" and "warnings s' = warnings s" 
    and "processedCount s' = processedCount s + 1"
    and "created s \<le> created s'"
proof -
  from assms(2) have st: "getTime (startDate r) \<le> getTime (currentDate s)" and vd: "validDate (currentDate s)"
    by (simp_all add: walkInv_def)
  note wb = assms(1)[unfolded walkBody_eq[OF st]]
  have a: "walkInv r s' \<and> warnings s' = warnings s \<and> processedCount s' = processedCount s + 1 \<and> created s \<le> created s'"
  proof (cases "isDateValidOccurrence (currentDate s) r")
    case True
    from valid_in_window[OF True] have "\<not> afterEnd (currentDate s) (endDate r)" by simp
    with wb True have "currentDate s' = calculateNextOccurrence (currentDate s) (frequency r)" 
      "warnings s' = warnings s" "processedCount s' = processedCount s + 1" "created s \<le> created s'"
      by (auto split: if_splits)
    moreover have "validDate (calculateNextOccurrence (currentDate s) (frequency r))" 
      by (rule validDate_calculateNextOccurrence)
    moreover have "getTime (currentDate s) < getTime (calculateNextOccurrence (currentDate s) (frequency r))"
      by (rule getTime_calculateNextOccurrence[OF vd])
    ultimately show ?thesis using st by (simp add: walkInv_def)
  next
    case False
    with wb obtain nxt where n: "findNextValidOccurrence (currentDate s) r 100 = Some nxt"
      "s' = s\<lparr>skipped := skipped s + 1, currentDate := nxt, processedCount := processedCount s + 1\<rparr>"
      by (auto split: if_splits option.splits)
    from findNextValidOccurrence_Some[OF n(1)] vd st have "validDate nxt" "getTime (startDate r) \<le> getTime nxt"
      by auto
    then show ?thesis using n(2) by (simp add: walkInv_def)
  qed
  then show "walkInv r s'" "warnings s' = warnings s" "processedCount s' = processedCount s + 1"
    "created s \<le> created s'" by simp_all
qed

lemma walkBody_False:
  assumes "walkBody 0 rejects r s = (s', False)" and "walkInv r s"
  shows "\<not> isDateValidOccurrence (currentDate s') r" 
    and "findNextValidOccurrence (currentDate s') r 100 = None"
    and "lastProcessedDate s' = lastProcessedDate s" and "created s' = created s" 
    and "store s' = store s" and "currentDate s' = currentDate s"
    and "processedCount s' = processedCount s" and "warnings s' = warnings s"
proof -
  from assms(2) have st: "getTime (startDate r) \<le> getTime (currentDate s)" 
    by (simp_all add: walkInv_def)
  note wb = assms(1)[unfolded walkBody_eq[OF st]]
  have "\<not> isDateValidOccurrence (currentDate s') r \<and>
     findNextValidOccurrence (currentDate s') r 100 = None \<and>
     lastProcessedDate s' = lastProcessedDate s \<and> created s' = created s \<and>
     store s' = store s \<and> currentDate s' = currentDate s \<and>
     processedCount s' = processedCount s \<and> warnings s' = warnings s"
  proof (cases "afterEnd (currentDate s) (endDate r)")
    case True
    with wb have "s' = s" by simp
    with True st show ?thesis 
      by (simp add: afterEnd_invalid findNextValidOccurrence_afterEnd)
  next
    case False
    with wb show ?thesis by (auto split: if_splits option.splits)
  qed
  then show "\<not> isDateValidOccurrence (currentDate s') r" 
    and "findNextValidOccurrence (currentDate s') r 100 = None"
    and "lastProcessedDate s' = lastProcessedDate s" and "created s' = created s" 
    and "store s' = store s" and "currentDate s' = currentDate s"
    and "processedCount s' = processedCount s" and "warnings s' = warnings s" by blast+
qed

section \<open>Reachable loop states\<close>

lemma reaches_walk: "walkReaches 0 rejects r e m s t \<Longrightarrow> walk 0 rejects r e m s = walk 0 rejects r e m t"
  by (induction rule: walkReaches.induct) (simp_all add: walk_continue)

lemma reaches_inv: "walkReaches 0 rejects r e m s t \<Longrightarrow> walkInv r s \<Longrightarrow> walkInv r t"
  by (induction rule: walkReaches.induct) (auto dest: walkBody_True(1))

lemma reaches_warnings: 
  "walkReaches 0 rejects r e m s t \<Longrightarrow> walkInv r s \<Longrightarrow> warnings t = warnings s"
proof (induction rule: walkReaches.induct)
  case (here s) show ?case by simp
next
  case (step s s' t)
  from walkBody_True(1,2)[OF step(2) step(6)] step(5) show ?case by simp
qed

lemma reaches_count: 
  "walkReaches 0 rejects r e m s t \<Longrightarrow> walkInv r s \<Longrightarrow> 
   processedCount s \<le> processedCount t \<and> 
   (t = s \<or> (processedCount s < processedCount t \<and> processedCount t < m))"
proof (induction rule: walkReaches.induct)
  case (here s) then show ?case by simp
next
  case (step s s' t)
  from walkBody_True[OF step(2) step(6)] step(3) step(5) show ?case by auto
qed

lemma reaches_trans:
  "walkReaches 0 rejects r e m s t \<Longrightarrow> walkReaches 0 rejects r e m t u \<Longrightarrow> walkReaches 0 rejects r e m s u"
  by (induction rule: walkReaches.induct) (auto intro: walkReaches.step)

lemma reaches_next:
  "walkReaches 0 rejects r e m s t \<Longrightarrow> walkGuard e m t \<Longrightarrow> walkBody 0 rejects r t = (t', True) \<Longrightarrow>
   \<not> m \<le> processedCount t' \<Longrightarrow> walkReaches 0 rejects r e m s t'"
  by (erule reaches_trans) (auto intro: walkReaches.step walkReaches.here)

section \<open>The ledger only grows\<close>

lemma covers_refl [simp]: "covers 0 r st st"
  by (simp add: covers_def)

lemma covers_trans: "covers 0 r a b \<Longrightarrow> covers 0 r b c \<Longrightarrow> covers 0 r a c"
  by (simp add: covers_def)

lemma covers_append:
  "transactions st' = transactions st @ ys \<Longrightarrow> covers 0 r st st'"
  by (auto simp: covers_def hasEntry_iff)

lemma covers_transactions_eq:
  "transactions st' = transactions st \<Longrightarrow> covers 0 r st st'"
  by (auto simp: covers_def hasEntry_iff)

lemma processDate_extends:
  "processDateForRecurring 0 rejects d r st = (res, st') \<Longrightarrow> \<exists>ys. transactions st' = transactions st @ ys"
  by (auto simp: processDate_eq split: if_splits)

lemma walkBody_extends:
  "walkBody 0 rejects r s = (s', b) \<Longrightarrow> \<exists>ys. transactions (store s') = transactions (store s) @ ys"
  by (auto simp: walkBody_utc Let_def split: if_splits prod.splits option.splits
           dest: processDate_extends)

lemma walk_extends:
  "\<exists>ys. transactions (store (walk 0 rejects r e m s)) = transactions (store s) @ ys"
proof (induction rejects r e m s rule: walk_induct_utc)
  case (stop rejects r e m s) then show ?case by (simp add: walk_stop)
next
  case (break rejects r e m s s') then show ?case by (simp add: walk_break walkBody_extends)
next
  case (limit rejects r e m s s') then show ?case by (simp add: walk_limit walkBody_extends)
next
  case (continue rejects r e m s s') 
  from walkBody_extends[OF continue(2)] continue(4) show ?case 
    unfolding walk_continue[OF continue(1,2,3)] by auto
qed

lemma walk_covers: "covers 0 r0 (store s) (store (walk 0 rejects r e m s))"
  using walk_extends[of rejects r e m s] by (auto intro: covers_append)

section \<open>Where the loop ends\<close>

lemma walk_limit_warns:
  assumes "walkGuard e m s" "walkBody 0 rejects r s = (s', True)" "m \<le> processedCount s'" "walkInv r s"
  shows "warnings (walk 0 rejects r e m s) \<noteq> warnings s"
  using walkBody_True(2)[OF assms(2,4)] by (simp add: walk_limit[OF assms(1,2,3)])

lemma walk_final:
  assumes "warnings (walk 0 rejects r e m s) = warnings s" and "walkInv r s"
  shows "\<exists>t. walkReaches 0 rejects r e m s t \<and>
            ((\<not> walkGuard e m t \<and> walk 0 rejects r e m s = t) \<or>
             (walkGuard e m t \<and> walkBody 0 rejects r t = (walk 0 rejects r e m s, False)))"
  using assms
proof (induction rejects r e m s rule: walk_induct_utc)
  case (stop rejects r e m s)
  then show ?case by (auto simp: walk_stop intro: walkReaches.here)
next
  case (break rejects r e m s s')
  then show ?case by (auto simp: walk_break intro: walkReaches.here)
next
  case (limit rejects r e m s s')
  with walk_limit_warns[OF limit(1,2,3)] show ?case by simp
next
  case (continue rejects r e m s s')
  note w = walk_continue[OF continue(1,2,3)]
  from walkBody_True[OF continue(2) continue(6)] continue(5) w
  have "warnings (walk 0 rejects r e m s') = warnings s'" "walkInv r s'" by simp_all
  from continue(4)[OF this] obtain t where t: "walkReaches 0 rejects r e m s' t"
    "(\<not> walkGuard e m t \<and> walk 0 rejects r e m s' = t) \<or>
     (walkGuard e m t \<and> walkBody 0 rejects r t = (walk 0 rejects r e m s', False))" by blast
  from walkReaches.step[OF continue(1,2,3) t(1)] t(2) show ?case unfolding w by blast
qed

lemma walkBody_last:
  assumes "walkBody 0 rejects r s = (s', True)" and "walkInv r s"
  shows "lastProcessedDate s' = lastProcessedDate s \<or>
         (lastProcessedDate s' = Some (currentDate s) \<and>
          currentDate s' = calculateNextOccurrence (currentDate s) (frequency r))"
proof -
  from assms(2) have st: "getTime (startDate r) \<le> getTime (currentDate s)" 
    by (simp_all add: walkInv_def)
  from assms(1)[unfolded walkBody_eq[OF st]] show ?thesis
    by (auto split: if_splits option.splits)
qed

lemma walk_last:
  assumes "warnings (walk 0 rejects r e m s) = warnings s" and "walkInv r s"
    and "lastProcessedDate (walk 0 rejects r e m s) = Some L"
  shows "lastProcessedDate s = Some L \<or>
         (\<exists>t. walkReaches 0 rejects r e m s t \<and>
              currentDate t = calculateNextOccurrence L (frequency r))"
  using assms
proof (induction rejects r e m s rule: walk_induct_utc)
  case (stop rejects r e m s)
  then show ?case by (simp add: walk_stop)
next
  case (break rejects r e m s s')
  with walkBody_False(3)[OF break(2)] show ?case by (simp add: walk_break)
next
  case (limit rejects r e m s s')
  with walk_limit_warns[OF limit(1,2,3)] show ?case by simp
next
  case (continue rejects r e m s s')
  note w = walk_continue[OF continue(1,2,3)]
  from walkBody_True[OF continue(2) continue(6)] continue(5) w
  have "warnings (walk 0 rejects r e m s') = warnings s'" "walkInv r s'" by simp_all
  from continue(4)[OF this] continue(7) w 
  have "lastProcessedDate s' = Some L \<or>
         (\<exists>t. walkReaches 0 rejects r e m s' t \<and>
              currentDate t = calculateNextOccurrence L (frequency r))" by simp
  then show ?case
  proof
    assume l: "lastProcessedDate s' = Some L"
    from walkBody_last[OF continue(2) continue(6)] show ?thesis
    proof
      assume "lastProcessedDate s' = lastProcessedDate s"
      with l show ?thesis by simp
    next
      assume a: "lastProcessedDate s' = Some (currentDate s) \<and>
          currentDate s' = calculateNextOccurrence (currentDate s) (frequency r)"
      with l have "currentDate s' = calculateNextOccurrence L (frequency r)" by simp
      moreover have "walkReaches 0 rejects r e m s s'"
        by (rule walkReaches.step[OF continue(1,2,3) walkReaches.here])
      ultimately show ?thesis by blast
    qed
  next
    assume "\<exists>t. walkReaches 0 rejects r e m s' t \<and>
              currentDate t = calculateNextOccurrence L (frequency r)"
    then obtain t where "walkReaches 0 rejects r e m s' t" 
      "currentDate t = calculateNextOccurrence L (frequency r)" by blast
    with walkReaches.step[OF continue(1,2,3)] show ?thesis by blast
  qed
qed

section \<open>Running the loop again\<close>

lemma hasEntry_generated:
  "hasEntry 0 r d (st\<lparr>transactions := transactions st @ [generatedEntry r d i], nextId := n\<rparr>)"
  by (simp add: hasEntry_iff generatedEntry_def)

lemma walkBody_replay:
  assumes "walkBody 0 rejects r t = (t', b)" and "walkInv r t" 
    and "currentDate s2 = currentDate t" and "covers 0 r (store t') (store s2)"
  shows "\<exists>s2'. walkBody 0 rejects r s2 = (s2', b) \<and> store s2' = store s2 \<and> 
           created s2' = created s2 \<and> currentDate s2' = currentDate t' \<and> 
           processedCount s2' = processedCount s2 + (if b then 1 else 0)"
proof -
  from assms(2) have st: "getTime (startDate r) \<le> getTime (currentDate t)" 
    by (simp_all add: walkInv_def)
  with assms(3) have st2: "getTime (startDate r) \<le> getTime (currentDate s2)" by simp
  note wb = assms(1)[unfolded walkBody_eq[OF st]]
  show ?thesis
  proof (cases "afterEnd (currentDate t) (endDate r)")
    case True
    with wb assms(3) show ?thesis by (auto simp: walkBody_eq[OF st2])
  next
    case ae: False
    show ?thesis
    proof (cases "isDateValidOccurrence (currentDate t) r")
      case False
      with wb ae assms(3) show ?thesis 
        by (auto simp: walkBody_eq[OF st2] split: option.splits)
    next
      case True
      have "hasEntry 0 r (currentDate t) (store s2) \<or> rejects (generatedInput r (currentDate t))"
      proof (cases "hasEntry 0 r (currentDate t) (store t) \<or> rejects (generatedInput r (currentDate t))")
        case True
        with wb ae \<open>isDateValidOccurrence (currentDate t) r\<close> have "store t' = store t" by auto
        with True assms(4) show ?thesis by (auto simp: covers_def)
      next
        case False
        with wb ae True have "hasEntry 0 r (currentDate t) (store t')" 
          by (auto simp: hasEntry_generated)
        with assms(4) show ?thesis by (auto simp: covers_def)
      qed
      with wb ae True assms(3) show ?thesis
        by (auto simp: walkBody_eq[OF st2] split: if_splits)
    qed
  qed
qed

lemma walk_replay:
  assumes "warnings (walk 0 rejects r e m t) = warnings t" and "walkInv r t"
    and "covers 0 r (store (walk 0 rejects r e m t)) (store s2)"
    and "currentDate s2 = currentDate t" and "processedCount s2 \<le> processedCount t"
    and "m \<le> processedCount t \<longrightarrow> m \<le> processedCount s2"
  shows "created (walk 0 rejects r e m s2) = created s2 \<and> store (walk 0 rejects r e m s2) = store s2"
  using assms
proof (induction rejects r e m t arbitrary: s2 rule: walk_induct_utc)
  case (stop rejects r e m t)
  then have "\<not> walkGuard e m s2" by (auto simp: walkGuard_def)
  then show ?case by (simp add: walk_stop)
next
  case (break rejects r e m t t')
  from break(5) have c: "covers 0 r (store t') (store s2)" by (simp add: walk_break[OF break(1,2)])
  from walkBody_replay[OF break(2) break(4) break(6) c] obtain s2' where 
    s2': "walkBody 0 rejects r s2 = (s2', False)" "store s2' = store s2" "created s2' = created s2" by auto
  from break(1,6,7) have "walkGuard e m s2" by (simp add: walkGuard_def)
  from walk_break[OF this s2'(1)] s2' show ?case by simp
next
  case (limit rejects r e m t t')
  with walk_limit_warns[OF limit(1,2,3)] show ?case by simp
next
  case (continue rejects r e m t t')
  note w = walk_continue[OF continue(1,2,3)]
  note tb = walkBody_True[OF continue(2) continue(6)]
  have "covers 0 r (store t') (store (walk 0 rejects r e m t'))" by (rule walk_covers)
  moreover from continue(7) have "covers 0 r (store (walk 0 rejects r e m t')) (store s2)" 
    unfolding w .
  ultimately have c: "covers 0 r (store t') (store s2)" by (rule covers_trans)
  from walkBody_replay[OF continue(2) continue(6) continue(8) c] obtain s2' where 
    s2': "walkBody 0 rejects r s2 = (s2', True)" "store s2' = store s2" "created s2' = created s2"
    "currentDate s2' = currentDate t'" "processedCount s2' = processedCount s2 + 1" by auto
  from continue(1,8,9) have g: "walkGuard e m s2" by (simp add: walkGuard_def)
  from s2'(5) tb(3) continue(9) continue(3) have n: "\<not> m \<le> processedCount s2'" 
    "processedCount s2' \<le> processedCount t'" by simp_all
  have "created (walk 0 rejects r e m s2') = created s2' \<and> store (walk 0 rejects r e m s2') = store s2'"
  proof (rule continue(4))
    show "warnings (walk 0 rejects r e m t') = warnings t'" using continue(5) w tb(2) by simp
    show "walkInv r t'" by (rule tb(1))
    show "covers 0 r (store (walk 0 rejects r e m t')) (store s2')" using continue(7) w s2'(2) by simp
    show "currentDate s2' = currentDate t'" by (rule s2'(4))
    show "processedCount s2' \<le> processedCount t'" by (rule n(2))
    show "m \<le> processedCount t' \<longrightarrow> m \<le> processedCount s2'" using continue(3) by simp
  qed
  then show ?case unfolding walk_continue[OF g s2'(1) n(1)] using s2' by simp
qed

section \<open>The pointer is not read by the loop\<close>

lemma valid_pointer_update [simp]:
  "isDateValidOccurrence d (r\<lparr>nextOccurrence := p\<rparr>) = isDateValidOccurrence d r"
  by (auto simp: isDateValidOccurrence_def Let_def split: FrequencyType.splits)

lemma findLoop_pointer_update [simp]:
  "findLoop (r\<lparr>nextOccurrence := p\<rparr>) n c i = findLoop r n c i"
proof (induction r n c i rule: findLoop.induct)
  case (1 r n c i)
  show ?case
  proof (cases "i < n \<and> \<not> isDateValidOccurrence c r \<and> 
      \<not> afterEnd (calculateNextOccurrence c (frequency r)) (endDate r) \<and>
      \<not> getTime (calculateNextOccurrence c (frequency r)) \<le> getTime c")
    case True
    with "1.IH"[OF _ _ refl] have "findLoop (r\<lparr>nextOccurrence := p\<rparr>) n (calculateNextOccurrence c (frequency r)) (i + 1) =
       findLoop r n (calculateNextOccurrence c (frequency r)) (i + 1)" by simp
    with True show ?thesis 
      by (subst findLoop.simps, subst (2) findLoop.simps) (simp add: Let_def)
  next
    case False
    then show ?thesis by (subst findLoop.simps, subst (2) findLoop.simps) (auto simp: Let_def)
  qed
qed

lemma findNextValidOccurrence_pointer_update [simp]:
  "findNextValidOccurrence c (r\<lparr>nextOccurrence := p\<rparr>) n = findNextValidOccurrence c r n"
  by (simp add: findNextValidOccurrence_def Let_def)

lemma hasEntry_pointer_update [simp]:
  "hasEntry 0 (r\<lparr>nextOccurrence := p\<rparr>) d st = hasEntry 0 r d st"
  by (simp add: hasEntry_def)

lemma covers_pointer_update [simp]:
  "covers 0 (r\<lparr>nextOccurrence := p\<rparr>) st st' = covers 0 r st st'"
  by (simp add: covers_def)

lemma processDate_pointer_update [simp]:
  "processDateForRecurring 0 rejects d (r\<lparr>nextOccurrence := p\<rparr>) st = processDateForRecurring 0 rejects d r st"
  by (simp add: processDate_eq generatedInput_def generatedEntry_def)

lemma walkBody_pointer_update [simp]:
  "walkBody 0 rejects (r\<lparr>nextOccurrence := p\<rparr>) s = walkBody 0 rejects r s"
  by (simp add: walkBody_utc)

lemma walk_pointer_update [simp]:
  "walk 0 rejects (r\<lparr>nextOccurrence := p\<rparr>) e m s = walk 0 rejects r e m s"
proof (induction rejects r e m s rule: walk_induct_utc)
  case (stop rejects r e m s) then show ?case by (simp add: walk_stop)
next
  case (break rejects r e m s s') 
  then show ?case by (simp add: walk_break[where r = r] walk_break[where r = "r\<lparr>nextOccurrence := p\<rparr>"])
next
  case (limit rejects r e m s s') 
  then show ?case by (simp add: walk_limit[where r = r] walk_limit[where r = "r\<lparr>nextOccurrence := p\<rparr>"])
next
  case (continue rejects r e m s s') 
  then show ?case by (simp add: walk_continue[where r = r] walk_continue[where r = "r\<lparr>nextOccurrence := p\<rparr>"])
qed

lemma effectiveEndDate_pointer_update [simp]:
  "effectiveEndDate 0 (r\<lparr>nextOccurrence := p\<rparr>) target = effectiveEndDate 0 r target"
  by (simp add: effectiveEndDate_utc)

lemma effectiveEndDate_afterEnd:
  "getTime d \<le> getTime (effectiveEndDate 0 r target) \<Longrightarrow> \<not> afterEnd d (endDate r)"
  by (auto simp: effectiveEndDate_utc afterEnd_def split: option.splits if_splits)

section \<open>The self-healing pointer\<close>

lemma findLoop_shift: "findLoop r (n + 1) c (i + 1) = findLoop r n c i"
proof (induction r n c i rule: findLoop.induct)
  case (1 r n c i)
  show ?case
  proof (cases "i < n \<and> \<not> isDateValidOccurrence c r \<and> 
      \<not> afterEnd (calculateNextOccurrence c (frequency r)) (endDate r) \<and>
      \<not> getTime (calculateNextOccurrence c (frequency r)) \<le> getTime c")
    case True
    with "1.IH"[OF _ _ refl] have "findLoop r (n + 1) (calculateNextOccurrence c (frequency r)) (i + 1 + 1) =
       findLoop r n (calculateNextOccurrence c (frequency r)) (i + 1)" by simp
    with True show ?thesis 
      by (subst findLoop.simps, subst (2) findLoop.simps) (simp add: Let_def)
  next
    case False
    then show ?thesis by (subst findLoop.simps, subst (2) findLoop.simps) (auto simp: Let_def)
  qed
qed

lemma selfHeal_next:
  fixes r :: RecurringTransaction
  assumes "validDate P" and "getTime (startDate r) \<le> getTime P" 
    and "\<not> isDateValidOccurrence P r"
    and "findNextValidOccurrence P r 101 = findNextValidOccurrence P r 100"
    and "\<not> afterEnd (calculateNextOccurrence P (frequency r)) (endDate r)"
  shows "isDateValidOccurrence (calculateNextOccurrence P (frequency r)) r \<Longrightarrow> 
           findNextValidOccurrence P r 100 = Some (calculateNextOccurrence P (frequency r))" 
    and "\<not> isDateValidOccurrence (calculateNextOccurrence P (frequency r)) r \<Longrightarrow> 
           findNextValidOccurrence (calculateNextOccurrence P (frequency r)) r 100 = 
           findNextValidOccurrence P r 100"
proof -
  define P' where "P' = calculateNextOccurrence P (frequency r)"
  have gt: "getTime P < getTime P'" unfolding P'_def by (rule getTime_calculateNextOccurrence[OF assms(1)])
  with assms(5) have ae: "\<not> afterEnd P (endDate r)" 
    by (auto simp: afterEnd_def P'_def split: option.splits)
  have step: "findNextValidOccurrence P r n = findLoop r n P' 1" if "0 < n" for n
    using assms(2,3,5) ae gt that unfolding findNextValidOccurrence_def Let_def
    by (subst findLoop.simps) (simp add: P'_def)
  have start': "findNextValidOccurrence P' r n = findLoop r n P' 0" for n
    using assms(2,5) gt by (simp add: findNextValidOccurrence_def P'_def)
  show "findNextValidOccurrence P r 100 = Some (calculateNextOccurrence P (frequency r))"
    if "isDateValidOccurrence (calculateNextOccurrence P (frequency r)) r"
    using that unfolding step[of 100, simplified] P'_def by (subst findLoop.simps) simp
  show "findNextValidOccurrence (calculateNextOccurrence P (frequency r)) r 100 = 
           findNextValidOccurrence P r 100"
    if "\<not> isDateValidOccurrence (calculateNextOccurrence P (frequency r)) r"
  proof -
    have "findNextValidOccurrence P r 101 = findLoop r (100 + 1) P' (0 + 1)" 
      using step[of 101] by simp
    also have "\<dots> = findLoop r 100 P' 0" by (rule findLoop_shift)
    finally show ?thesis using assms(4) start'[of 100] by (simp add: P'_def)
  qed
qed

lemma walkStart_fields [simp]:
  "currentDate (walkStart g v) = v" "lastProcessedDate (walkStart g v) = None"
  "processedCount (walkStart g v) = 0" "created (walkStart g v) = created g"
  "warnings (walkStart g v) = warnings g" "skipped (walkStart g v) = skipped g"
  by (simp_all add: walkStart_def GenState.extend_def)

lemma truncate_fields [simp]:
  "created (GenState.truncate s) = created s" "warnings (GenState.truncate s) = warnings s"
  "skipped (GenState.truncate s) = skipped s"
  by (simp_all add: GenState.truncate_def)

lemma transactions_pointer_update [simp]:
  "transactions (updateRecurringTransaction i u st) = transactions st"
  by (simp add: updateRecurringTransaction_def)

lemma catchUp_fields:
  "created (catchUp 0 rejects e m r v g) = created (walk 0 rejects r e m (walkStart g v))"
  "warnings (catchUp 0 rejects e m r v g) = warnings (walk 0 rejects r e m (walkStart g v))"
  "transactions (store (catchUp 0 rejects e m r v g)) = 
     transactions (store (walk 0 rejects r e m (walkStart g v)))"
  by (simp_all add: catchUp_walkStart Let_def split: option.splits)

text \<open>A pointer stored after the loop, when it is not after the end of the walk, is a date
  at which the loop tested its condition.\<close>

lemma stored_pointer_reached:
  assumes nowarn: "warnings (walk 0 rejects r e m (walkStart g v)) = warnings g"
    and inv: "validDate v" "getTime (startDate r) \<le> getTime v" 
    and valid: "isDateValidOccurrence v r"
    and ptr: "nextOccurrenceToStore 0 r e (walk 0 rejects r e m (walkStart g v)) = Some d"
    and le: "getTime d \<le> getTime e"
  shows "\<exists>t. walkReaches 0 rejects r e m (walkStart g v) t \<and> currentDate t = d"
proof -
  define s0 where "s0 = walkStart g v"
  define f where "f = walk 0 rejects r e m s0"
  have nw: "warnings (walk 0 rejects r e m s0) = warnings s0" using nowarn by (simp add: s0_def)
  have i0: "walkInv r s0" using inv by (simp add: walkInv_def s0_def)
  have "nextOccurrenceToStore 0 r e f = Some d" using ptr by (simp add: f_def s0_def)
  note ptr' = this[unfolded nextOccurrenceToStore_utc Let_def]
  text \<open>Moving on from a reached state whose date is invalid.\<close>
  have move: "\<exists>t'. walkReaches 0 rejects r e m s0 t' \<and> currentDate t' = d"
    if t: "walkReaches 0 rejects r e m s0 t" and nv: "\<not> isDateValidOccurrence (currentDate t) r"
      and fd: "findNextValidOccurrence (currentDate t) r 100 = Some d" and cnt: "processedCount t < m" for t
  proof -
    have it: "walkInv r t" by (rule reaches_inv[OF t i0])
    then have st: "getTime (startDate r) \<le> getTime (currentDate t)" by (simp add: walkInv_def)
    from findNextValidOccurrence_Some(2)[OF fd] le have "getTime (currentDate t) \<le> getTime e" by simp
    with cnt have gd: "walkGuard e m t" by (simp add: walkGuard_def)
    have ae: "\<not> afterEnd (currentDate t) (endDate r)"
      using findNextValidOccurrence_afterEnd[OF st, of 100] fd by auto
    define t' where "t' = t\<lparr>skipped := skipped t + 1, currentDate := d, 
                           processedCount := processedCount t + 1\<rparr>"
    have wb: "walkBody 0 rejects r t = (t', True)" 
      using ae nv fd by (simp add: walkBody_eq[OF st] t'_def)
    have "warnings (walk 0 rejects r e m t) = warnings t"
      using nw reaches_walk[OF t] reaches_warnings[OF t i0] by simp
    with walk_limit_warns[OF gd wb _ it] have "\<not> m \<le> processedCount t'" by auto
    from reaches_next[OF t gd wb this] show ?thesis by (auto simp: t'_def)
  qed
  from walk_final[OF nw i0] obtain tf where tf: "walkReaches 0 rejects r e m s0 tf"
    "(\<not> walkGuard e m tf \<and> f = tf) \<or> (walkGuard e m tf \<and> walkBody 0 rejects r tf = (f, False))" 
    unfolding f_def by blast
  have itf: "walkInv r tf" by (rule reaches_inv[OF tf(1) i0])
  text \<open>A pointer taken from the date at which the loop ended.\<close>
  have fromEnd: "\<exists>t. walkReaches 0 rejects r e m s0 t \<and> currentDate t = d"
    if c: "(if isDateValidOccurrence (currentDate f) r then Some (currentDate f)
            else findNextValidOccurrence (currentDate f) r 100) = Some d"
      and z: "processedCount f = 0 \<longrightarrow> isDateValidOccurrence (currentDate f) r"
  proof -
    from tf(2) show ?thesis
    proof
      assume a: "\<not> walkGuard e m tf \<and> f = tf"
      show ?thesis
      proof (cases "isDateValidOccurrence (currentDate f) r")
        case True
        with c a tf(1) show ?thesis by auto
      next
        case False
        with c a have fd: "findNextValidOccurrence (currentDate tf) r 100 = Some d" by simp
        from findNextValidOccurrence_Some(2)[OF fd] le have "getTime (currentDate tf) \<le> getTime e" by simp
        with a have "m \<le> processedCount tf" by (simp add: walkGuard_def)
        with reaches_count[OF tf(1) i0] have "tf = s0" by auto
        with a False z show ?thesis by (simp add: s0_def)
      qed
    next
      assume a: "walkGuard e m tf \<and> walkBody 0 rejects r tf = (f, False)"
      with walkBody_False(1,2)[OF _ itf, of rejects f] c show ?thesis by simp
    qed
  qed
  show ?thesis
  proof (cases "lastProcessedDate f")
    case (Some L)
    define N where "N = calculateNextOccurrence L (frequency r)"
    from walk_last[OF nw i0 Some[unfolded f_def]] obtain t where 
      t: "walkReaches 0 rejects r e m s0 t" "currentDate t = N"
      by (auto simp: s0_def N_def)
    show ?thesis
    proof (cases "isDateValidOccurrence N r")
      case True
      with ptr' Some t show ?thesis by (auto simp: N_def s0_def)
    next
      case False
      with ptr' Some have fd: "findNextValidOccurrence (currentDate t) r 100 = Some d" 
        by (simp add: N_def t(2))
      have "processedCount t < m"
      proof (rule ccontr)
        assume "\<not> processedCount t < m"
        with reaches_count[OF t(1) i0] have "t = s0" "m \<le> 0" by (auto simp: s0_def)
        then have "f = s0" unfolding f_def by (intro walk_stop) (simp add: walkGuard_def s0_def)
        with Some show False by (simp add: s0_def)
      qed
      from move[OF t(1) _ fd this] False t(2) show ?thesis by (simp add: s0_def)
    qed
  next
    case None
    have z: "processedCount f = 0 \<longrightarrow> isDateValidOccurrence (currentDate f) r"
    proof
      assume c0: "processedCount f = 0"
      from tf(2) have "processedCount tf = 0 \<and> currentDate f = currentDate tf"
      proof
        assume "\<not> walkGuard e m tf \<and> f = tf" with c0 show ?thesis by simp
      next
        assume "walkGuard e m tf \<and> walkBody 0 rejects r tf = (f, False)"
        with walkBody_False(6,7)[OF _ itf, of rejects f] c0 show ?thesis by simp
      qed
      then have pc: "processedCount tf = 0" and cd: "currentDate f = currentDate tf" by simp_all
      from reaches_count[OF tf(1) i0] pc have "tf = s0" by (auto simp: s0_def)
      with cd valid show "isDateValidOccurrence (currentDate f) r" by (simp add: s0_def)
    qed
    from ptr' None have "(if isDateValidOccurrence (currentDate f) r then Some (currentDate f)
            else findNextValidOccurrence (currentDate f) r 100) = Some d"
      by (auto split: if_splits)
    from fromEnd[OF this z] show ?thesis by (simp add: s0_def)
  qed
qed

section \<open>The bound of the search\<close>

lemma leap_consecutive: "isLeapYear y \<Longrightarrow> \<not> isLeapYear (y - 1)"
proof -
  assume "isLeapYear y"
  then have "y mod 4 = 0" unfolding isLeapYear_def by presburger
  then have "(y - 1) mod 4 \<noteq> 0" by presburger
  then show ?thesis unfolding isLeapYear_def by presburger
qed

lemma day29_leap: "validDate d \<Longrightarrow> month d = 1 \<Longrightarrow> 29 \<le> day d \<Longrightarrow> isLeapYear (year d)"
  by (auto simp: validDate_def daysInMonth_def split: if_splits)

lemma normDay_overflow:
  assumes "0 \<le> m" "m \<le> 11" "daysInMonth y m < d" "d \<le> 31"
  shows "day (normDay y m d) \<le> 3" 
    and "normDay y m d = \<lparr>year = (if m = 11 then y + 1 else y), month = (if m = 11 then 0 else m + 1), 
                            day = d - daysInMonth y m\<rparr>"
proof -
  have b: "1 \<le> d - daysInMonth y m" "d - daysInMonth y m \<le> 3" 
    using assms daysInMonth_bounds[of y m] by simp_all
  have n: "normDay y m d = (if m = 11 then normDay (y + 1) 0 (d - daysInMonth y m)
         else normDay y (m + 1) (d - daysInMonth y m))"
    using assms daysInMonth_bounds[of y m] by (subst normDay.simps) simp
  show 2: "normDay y m d = \<lparr>year = (if m = 11 then y + 1 else y), month = (if m = 11 then 0 else m + 1), 
                            day = d - daysInMonth y m\<rparr>"
    unfolding n using b daysInMonth_bounds(1)[of "y + 1" 0] daysInMonth_bounds(1)[of y "m + 1"]
    by (auto simp: normDay_valid)
  show "day (normDay y m d) \<le> 3" unfolding 2 using b by simp
qed

lemma monthly_step:
  assumes "validDate c"
  shows "(day (calculateNextOccurrence c Monthly) = day c \<and> 
          12 * year (calculateNextOccurrence c Monthly) + month (calculateNextOccurrence c Monthly) =
          12 * year c + month c + 1) \<or>
         (29 \<le> day c \<and> day (calculateNextOccurrence c Monthly) \<le> 3)"
proof -
  define y' where "y' = year c + (month c + 1) div 12"
  define m' where "m' = (month c + 1) mod 12"
  have c': "calculateNextOccurrence c Monthly = normDay y' m' (day c)"
    by (simp add: newDate_def y'_def m'_def)
  have m': "0 \<le> m'" "m' \<le> 11" by (simp_all add: m'_def)
  have d: "1 \<le> day c" "day c \<le> 31" 
    using assms daysInMonth_bounds(2)[of "year c" "month c"] by (simp_all add: validDate_def)
  have idx: "12 * y' + m' = 12 * year c + month c + 1" unfolding y'_def m'_def by presburger
  show ?thesis
  proof (cases "day c \<le> daysInMonth y' m'")
    case True
    with d have "normDay y' m' (day c) = \<lparr>year = y', month = m', day = day c\<rparr>" 
      by (simp add: normDay_valid)
    with idx show ?thesis unfolding c' by simp
  next
    case False
    with normDay_overflow(1)[OF m', of y' "day c"] d daysInMonth_bounds(1)[of y' m']
    show ?thesis unfolding c' by simp
  qed
qed

lemma yearly_step:
  assumes "validDate c"
  shows "calculateNextOccurrence c Yearly = \<lparr>year = year c + 1, month = month c, day = day c\<rparr> \<or>
         (month c = 1 \<and> day c = 29 \<and> 
          calculateNextOccurrence c Yearly = \<lparr>year = year c + 1, month = 2, day = 1\<rparr>)"
proof -
  from assms have m: "0 \<le> month c" "month c \<le> 11" and d: "1 \<le> day c" 
    "day c \<le> daysInMonth (year c) (month c)" by (simp_all add: validDate_def)
  have c': "calculateNextOccurrence c Yearly = normDay (year c + 1) (month c) (day c)"
    using m by (simp add: newDate_def zdiv_eq_0_iff)
  show ?thesis
  proof (cases "day c \<le> daysInMonth (year c + 1) (month c)")
    case True
    with d show ?thesis unfolding c' by (simp add: normDay_valid)
  next
    case False
    with d have f: "month c = 1" "day c = 29" "daysInMonth (year c + 1) (month c) = 28"
      by (auto simp: daysInMonth_def split: if_splits)
    with normDay_overflow(2)[OF m, of "year c + 1" "day c"] False
    show ?thesis unfolding c' by simp
  qed
qed

lemma getTime_weekly: "getTime (calculateNextOccurrence d Weekly) = getTime d + 7"
  unfolding calculateNextOccurrence.simps newDate_props(1) by (simp add: getTime_def makeDay_def)

lemma iterNext_mono:
  assumes "validDate c" shows "j \<le> k \<Longrightarrow> getTime (iterNext r j c) \<le> getTime (iterNext r k c)"
proof (induction k)
  case 0 then show ?case by simp
next
  case (Suc k)
  have "getTime (iterNext r k c) < getTime (iterNext r (Suc k) c)"
    unfolding iterNext_Suc_right
    by (rule getTime_calculateNextOccurrence[OF iterNext_validDate[OF assms]])
  with Suc show ?case by (cases "j = Suc k") auto
qed

lemma monthly_back:
  assumes "validDate c" "frequency r = Monthly" "4 \<le> day (iterNext r n c)"
  shows "k \<le> n \<Longrightarrow> day (iterNext r (n - k) c) = day (iterNext r n c) \<and>
           12 * year (iterNext r (n - k) c) + month (iterNext r (n - k) c) =
           12 * year (iterNext r n c) + month (iterNext r n c) - int k"
proof (induction k)
  case 0 then show ?case by simp
next
  case (Suc k)
  then have IH: "day (iterNext r (n - k) c) = day (iterNext r n c)"
    "12 * year (iterNext r (n - k) c) + month (iterNext r (n - k) c) =
           12 * year (iterNext r n c) + month (iterNext r n c) - int k" by simp_all
  from Suc.prems have nk: "n - k = Suc (n - Suc k)" by simp
  have "iterNext r (n - k) c = calculateNextOccurrence (iterNext r (n - Suc k) c) Monthly"
    unfolding nk iterNext_Suc_right assms(2) ..
  with monthly_step[OF iterNext_validDate[OF assms(1), of r "n - Suc k"]] IH assms(3)
  show ?case by auto
qed

text \<open>Twenty-four consecutive months do not all have a 29th day.\<close>

lemma monthly_no_29:
  assumes v: "validDate c" and f: "frequency r = Monthly" and d: "29 \<le> day (iterNext r n c)" 
    and n: "23 \<le> n"
  shows False
proof -
  define I where "I = 12 * year (iterNext r n c) + month (iterNext r n c)"
  define k1 where "k1 = nat ((I - 1) mod 12)"
  define A where "A = iterNext r (n - k1) c"
  define B where "B = iterNext r (n - (k1 + 12)) c"
  have k1: "k1 \<le> 11" unfolding k1_def by simp
  from d have d4: "4 \<le> day (iterNext r n c)" by simp
  have vA: "validDate A" "validDate B" unfolding A_def B_def by (rule iterNext_validDate[OF v])+
  from monthly_back[OF v f d4, of k1] k1 n 
  have a: "day A = day (iterNext r n c)" "12 * year A + month A = I - int k1"
    by (simp_all add: A_def I_def)
  from monthly_back[OF v f d4, of "k1 + 12"] k1 n 
  have b: "day B = day (iterNext r n c)" "12 * year B + month B = I - int k1 - 12"
    by (simp_all add: B_def I_def)
  have mA: "0 \<le> month A" "month A \<le> 11" and mB: "0 \<le> month B" "month B \<le> 11"
    using vA by (simp_all add: validDate_def)
  have "int k1 = (I - 1) mod 12" unfolding k1_def by simp
  then have "(I - int k1) mod 12 = 1" by presburger
  with a(2) mA have A1: "month A = 1" by presburger
  with a(2) b(2) mB have B1: "month B = 1" "year B = year A - 1" by presburger+
  from day29_leap[OF vA(1) A1] day29_leap[OF vA(2) B1(1)] a(1) b(1) d B1(2)
  have "isLeapYear (year A)" "isLeapYear (year A - 1)" by simp_all
  with leap_consecutive show False by blast
qed

lemma valid_daily:
  "frequency r = Daily \<Longrightarrow> getTime (startDate r) \<le> getTime d \<Longrightarrow> \<not> afterEnd d (endDate r) \<Longrightarrow>
   isDateValidOccurrence d r"
  by (simp add: isDateValidOccurrence_def)

lemma valid_weekly:
  "frequency r = Weekly \<Longrightarrow> getTime (startDate r) \<le> getTime d \<Longrightarrow> \<not> afterEnd d (endDate r) \<Longrightarrow>
   isDateValidOccurrence d r = ((getTime d - getTime (startDate r)) mod 7 = 0)"
proof -
  have "(getTime d - getTime (startDate r)) mod 7 = 0 \<Longrightarrow> getDay d = getDay (startDate r)"
    unfolding getDay_def by presburger
  then show "frequency r = Weekly \<Longrightarrow> getTime (startDate r) \<le> getTime d \<Longrightarrow> 
    \<not> afterEnd d (endDate r) \<Longrightarrow> ?thesis"
    by (auto simp: isDateValidOccurrence_def Let_def)
qed

lemma valid_monthly:
  assumes "frequency r = Monthly" "getTime (startDate r) \<le> getTime d" "\<not> afterEnd d (endDate r)"
    "validDate d"
  shows "isDateValidOccurrence d r = 
     (if day (startDate r) > 28 then day d = min (day (startDate r)) (daysInMonth (year d) (month d))
      else day d = day (startDate r))"
proof -
  from assms(4) have "day (newDate (year d) (month d + 1) 0) = daysInMonth (year d) (month d)"
    by (intro lastDayOfMonth) (simp_all add: validDate_def)
  with assms(1-3) show ?thesis by (simp add: isDateValidOccurrence_def Let_def)
qed

lemma valid_yearly:
  assumes "frequency r = Yearly" "getTime (startDate r) \<le> getTime d" "\<not> afterEnd d (endDate r)"
  shows "isDateValidOccurrence d r = 
     (if month (startDate r) = 1 \<and> day (startDate r) = 29 then
        month d = 1 \<and> day d = (if isLeapYear (year d) then 29 else 28)
      else month d = month (startDate r) \<and> day d = day (startDate r))"
  using assms by (auto simp: isDateValidOccurrence_def Let_def)

text \<open>A valid occurrence in the chain of the search has a valid occurrence among the
  twenty-four dates before it.\<close>

lemma chain_hits:
  assumes v: "validDate c" and st: "getTime (startDate r) \<le> getTime c"
    and n: "24 \<le> n" and valid: "isDateValidOccurrence (iterNext r n c) r"
  shows "\<exists>j<n. isDateValidOccurrence (iterNext r j c) r"
proof -
  have vd: "validDate (iterNext r j c)" for j by (rule iterNext_validDate[OF v])
  have lo: "getTime (startDate r) \<le> getTime (iterNext r j c)" for j
    using iterNext_mono[OF v, of 0 j r] st by simp
  have ne: "\<not> afterEnd (iterNext r n c) (endDate r)" 
    using valid by (auto simp: isDateValidOccurrence_def split: if_splits)
  have hi: "\<not> afterEnd (iterNext r j c) (endDate r)" if "j \<le> n" for j
    using ne iterNext_mono[OF v that, of r] by (auto simp: afterEnd_def split: option.splits)
  have step: "iterNext r (Suc j) c = calculateNextOccurrence (iterNext r j c) (frequency r)" for j
    by (rule iterNext_Suc_right)
  obtain p where p: "n = Suc p" using n by (cases n) auto
  obtain q where q: "p = Suc q" using n p by (cases p) auto
  show ?thesis
  proof (cases "frequency r")
    case Daily
    have "isDateValidOccurrence (iterNext r p c) r" 
      by (rule valid_daily[OF Daily lo hi]) (simp add: p)
    with p show ?thesis by auto
  next
    case Weekly
    have "getTime (iterNext r n c) = getTime (iterNext r p c) + 7"
      unfolding p step Weekly by (rule getTime_weekly)
    moreover have vw: "isDateValidOccurrence (iterNext r j c) r = 
        ((getTime (iterNext r j c) - getTime (startDate r)) mod 7 = 0)" if "j \<le> n" for j
      by (rule valid_weekly[OF Weekly lo hi[OF that]])
    ultimately have "isDateValidOccurrence (iterNext r p c) r" 
      using valid vw[of n] vw[of p] p by simp presburger
    with p show ?thesis by auto
  next
    case Monthly
    define S where "S = day (startDate r)"
    have vm: "isDateValidOccurrence (iterNext r j c) r = 
       (if S > 28 then day (iterNext r j c) = 
                       min S (daysInMonth (year (iterNext r j c)) (month (iterNext r j c)))
        else day (iterNext r j c) = S)" if "j \<le> n" for j
      unfolding S_def by (rule valid_monthly[OF Monthly lo hi[OF that] vd])
    show ?thesis
    proof (cases "S > 28")
      case False
      with valid vm[of n] have dn: "day (iterNext r n c) = S" by simp
      from monthly_step[OF vd[of p]] 
      have "day (iterNext r n c) = day (iterNext r p c) \<or> 29 \<le> day (iterNext r p c)"
        unfolding p step Monthly by auto
      then show ?thesis
      proof
        assume "day (iterNext r n c) = day (iterNext r p c)"
        with dn False vm[of p] p have "isDateValidOccurrence (iterNext r p c) r" by simp
        with p show ?thesis by auto
      next
        assume "29 \<le> day (iterNext r p c)"
        from monthly_no_29[OF v Monthly this] n p have False by simp
        then show ?thesis ..
      qed
    next
      case True
      define d where "d = day (iterNext r n c)"
      from True valid vm[of n] 
      have dn: "d = min S (daysInMonth (year (iterNext r n c)) (month (iterNext r n c)))" 
        by (simp add: d_def)
      with True daysInMonth_bounds(1)[of "year (iterNext r n c)" "month (iterNext r n c)"]
      have d28: "28 \<le> d" by simp
      show ?thesis
      proof (cases "29 \<le> d")
        case True
        from monthly_no_29[OF v Monthly True[unfolded d_def]] n have False by simp
        then show ?thesis ..
      next
        case False
        with d28 have d: "d = 28" by simp
        with dn True have len: "daysInMonth (year (iterNext r n c)) (month (iterNext r n c)) = 28" 
          by simp
        then have feb: "month (iterNext r n c) = 1" "\<not> isLeapYear (year (iterNext r n c))"
          by (auto simp: daysInMonth_def split: if_splits)
        define A where "A = iterNext r (n - 12) c"
        define B where "B = iterNext r (n - 24) c"
        have d4: "4 \<le> day (iterNext r n c)" using d by (simp add: d_def)
        from monthly_back[OF v Monthly d4, of 12] n feb(1)
        have a: "day A = 28" "12 * year A + month A = 12 * year (iterNext r n c) + 1 - 12"
          using d by (simp_all add: A_def d_def)
        from monthly_back[OF v Monthly d4, of 24] n feb(1)
        have b: "day B = 28" "12 * year B + month B = 12 * year (iterNext r n c) + 1 - 24"
          using d by (simp_all add: B_def d_def)
        have mA: "0 \<le> month A" "month A \<le> 11" and mB: "0 \<le> month B" "month B \<le> 11"
          using vd[of "n - 12"] vd[of "n - 24"] by (simp_all add: validDate_def A_def B_def)
        from a(2) mA have A1: "month A = 1" "year A = year (iterNext r n c) - 1" by presburger+
        from b(2) mB have B1: "month B = 1" "year B = year A - 1" unfolding A1(2) by presburger+
        show ?thesis
        proof (cases "isLeapYear (year A)")
          case False
          with A1 a(1) True vm[of "n - 12"] n have "isDateValidOccurrence A r" 
            by (simp add: A_def daysInMonth_def)
          with n show ?thesis unfolding A_def by (intro exI[of _ "n - 12"]) simp
        next
          case True
          with leap_consecutive have "\<not> isLeapYear (year B)" by (simp add: B1)
          with B1 b(1) \<open>S > 28\<close> vm[of "n - 24"] n have "isDateValidOccurrence B r" 
            by (simp add: B_def daysInMonth_def)
          with n show ?thesis unfolding B_def by (intro exI[of _ "n - 24"]) simp
        qed
      qed
    qed
  next
    case Yearly
    have vy: "isDateValidOccurrence (iterNext r j c) r = 
     (if month (startDate r) = 1 \<and> day (startDate r) = 29 then
        month (iterNext r j c) = 1 \<and> 
        day (iterNext r j c) = (if isLeapYear (year (iterNext r j c)) then 29 else 28)
      else month (iterNext r j c) = month (startDate r) \<and> day (iterNext r j c) = day (startDate r))" 
      if "j \<le> n" for j
      by (rule valid_yearly[OF Yearly lo hi[OF that]])
    define Cn where "Cn = iterNext r n c"
    define Cp where "Cp = iterNext r p c"
    define Cq where "Cq = iterNext r q c"
    have sp: "Cn = calculateNextOccurrence Cp Yearly" unfolding Cn_def Cp_def p step Yearly ..
    have sq: "Cp = calculateNextOccurrence Cq Yearly" unfolding Cp_def Cq_def q step Yearly ..
    have vs: "validDate Cn" "validDate Cp" "validDate Cq" unfolding Cn_def Cp_def Cq_def by (rule vd)+
    note yp = yearly_step[OF vs(2), folded sp]
    note yq = yearly_step[OF vs(3), folded sq]
    have vn: "isDateValidOccurrence Cn r" using valid by (simp add: Cn_def)
    have lt: "p < n" "q < n" "p \<le> n" "q \<le> n" using p q by simp_all
    show ?thesis
    proof (cases "month (startDate r) = 1 \<and> day (startDate r) = 29")
      case True
      with vn vy[of n] have cn: "month Cn = 1" "day Cn = (if isLeapYear (year Cn) then 29 else 28)"
        by (simp_all add: Cn_def)
      with yp have fp: "Cn = \<lparr>year = year Cp + 1, month = month Cp, day = day Cp\<rparr>" by auto
      then have yn: "year Cn = year Cp + 1" "month Cp = 1" "day Cp = day Cn" using cn(1) 
        by (metis Date.select_convs(1), metis Date.select_convs(2), metis Date.select_convs(3))
      have nl: "\<not> isLeapYear (year Cn)"
      proof
        assume l: "isLeapYear (year Cn)"
        with cn(2) yn(3) have "29 \<le> day Cp" by simp
        from day29_leap[OF vs(2) yn(2) this] leap_consecutive[OF l] yn(1) show False by simp
      qed
      with cn(2) yn(3) have dp: "day Cp = 28" by simp
      show ?thesis
      proof (cases "isLeapYear (year Cp)")
        case False
        with True yn(2) dp vy[of p] lt have "isDateValidOccurrence Cp r" by (simp add: Cp_def)
        with lt show ?thesis unfolding Cp_def by blast
      next
        case lp: True
        from yq yn(2) have fq: "Cp = \<lparr>year = year Cq + 1, month = month Cq, day = day Cq\<rparr>" by auto
        then have yq': "year Cp = year Cq + 1" "month Cq = 1" "day Cq = day Cp" using yn(2)
          by (metis Date.select_convs(1), metis Date.select_convs(2), metis Date.select_convs(3))
        from leap_consecutive[OF lp] yq'(1) have "\<not> isLeapYear (year Cq)" by simp
        with True yq' dp vy[of q] lt have "isDateValidOccurrence Cq r" by (simp add: Cq_def)
        with lt show ?thesis unfolding Cq_def by blast
      qed
    next
      case False
      with vn vy[of n] have cn: "month Cn = month (startDate r)" "day Cn = day (startDate r)"
        by (simp_all add: Cn_def)
      from yp show ?thesis
      proof
        assume fp: "Cn = \<lparr>year = year Cp + 1, month = month Cp, day = day Cp\<rparr>"
        then have "month Cp = month Cn" "day Cp = day Cn"
          by (metis Date.select_convs(2), metis Date.select_convs(3))
        with False cn vy[of p] lt have "isDateValidOccurrence Cp r" by (simp add: Cp_def)
        with lt show ?thesis unfolding Cp_def by blast
      next
        assume o: "month Cp = 1 \<and> day Cp = 29 \<and> Cn = \<lparr>year = year Cp + 1, month = 2, day = 1\<rparr>"
        then have lp: "isLeapYear (year Cp)" using day29_leap[OF vs(2)] by simp
        from yq o have fq: "Cp = \<lparr>year = year Cq + 1, month = month Cq, day = day Cq\<rparr>" by auto
        then have yq': "year Cp = year Cq + 1" "month Cq = 1" "day Cq = 29" using o
          by (metis Date.select_convs(1), metis Date.select_convs(2), metis Date.select_convs(3))
        from day29_leap[OF vs(3) yq'(2)] yq'(3) have "isLeapYear (year Cq)" by simp
        with leap_consecutive[OF lp] yq'(1) have False by simp
        then show ?thesis ..
      qed
    qed
  qed
qed

text \<open>The search with one more iteration gives another result only if the chain of the
  search comes to its first valid occurrence exactly at the bound.\<close>

lemma findLoop_one_more:
  assumes "i \<le> n" and "findLoop r (n + 1) c i \<noteq> findLoop r n c i"
  shows "isDateValidOccurrence (iterNext r (nat (n - i)) c) r \<and> 
         (\<forall>j<nat (n - i). \<not> isDateValidOccurrence (iterNext r j c) r)"
  using assms
proof (induction r n c i rule: findLoop.induct)
  case (1 r n c i)
  define nx where "nx = calculateNextOccurrence c (frequency r)"
  show ?case
  proof (cases "i < n")
    case False
    with "1.prems"(1) have i: "i = n" by simp
    have 0: "findLoop r n c n = None" by (subst findLoop.simps) simp
    have 1: "findLoop r (n + 1) nx (n + 1) = None" by (subst findLoop.simps) simp
    have "findLoop r (n + 1) c n = (if isDateValidOccurrence c r then Some c else None)"
      by (subst findLoop.simps) (simp add: Let_def 1[unfolded nx_def])
    with 0 "1.prems"(2) have "isDateValidOccurrence c r" unfolding i by (simp split: if_splits)
    then show ?thesis by (simp add: i)
  next
    case True
    have u1: "findLoop r (n + 1) c i = 
       (if isDateValidOccurrence c r then Some c else if afterEnd nx (endDate r) then None
        else if getTime nx \<le> getTime c then None else findLoop r (n + 1) nx (i + 1))"
      using True by (subst findLoop.simps) (simp add: Let_def nx_def)
    have u2: "findLoop r n c i = 
       (if isDateValidOccurrence c r then Some c else if afterEnd nx (endDate r) then None
        else if getTime nx \<le> getTime c then None else findLoop r n nx (i + 1))"
      using True by (subst findLoop.simps) (simp add: Let_def nx_def)
    from "1.prems"(2) have ne: "\<not> isDateValidOccurrence c r" 
      and a: "\<not> afterEnd nx (endDate r)" and b: "\<not> getTime nx \<le> getTime c"
      and rec: "findLoop r (n + 1) nx (i + 1) \<noteq> findLoop r n nx (i + 1)"
      unfolding u1 u2 by (simp_all split: if_splits)
    from True have le: "i + 1 \<le> n" by simp
    from "1.IH"[OF True ne nx_def a b le rec]
    have IH: "isDateValidOccurrence (iterNext r (nat (n - (i + 1))) nx) r" 
      "\<forall>j<nat (n - (i + 1)). \<not> isDateValidOccurrence (iterNext r j nx) r" by simp_all
    from True have k: "nat (n - i) = Suc (nat (n - (i + 1)))" by simp
    have "\<not> isDateValidOccurrence (iterNext r j c) r" if "j < nat (n - i)" for j
    proof (cases j)
      case 0 with ne show ?thesis by simp
    next
      case (Suc j')
      with that k have "j' < nat (n - (i + 1))" by simp
      with IH(2) Suc show ?thesis by (simp add: nx_def)
    qed
    with IH(1) show ?thesis unfolding k by (simp add: nx_def)
  qed
qed

text \<open>The start date of a series is an occurrence of it, unless the series ends before it
  starts.\<close>

lemma valid_start:
  assumes "validDate (startDate r)" and "\<not> afterEnd (startDate r) (endDate r)"
  shows "isDateValidOccurrence (startDate r) r"
proof (cases "frequency r")
  case Daily
  with assms(2) show ?thesis by (simp add: valid_daily)
next
  case Weekly
  with assms(2) show ?thesis by (simp add: valid_weekly)
next
  case Monthly
  from assms(1) have "day (startDate r) \<le> daysInMonth (year (startDate r)) (month (startDate r))"
    by (simp add: validDate_def)
  with valid_monthly[OF Monthly _ assms(2,1)] show ?thesis by simp
next
  case Yearly
  from day29_leap[OF assms(1)] valid_yearly[OF Yearly _ assms(2)] show ?thesis by auto
qed

text \<open>The bound of a hundred iterations never decides the search from the pointer of a
  series.\<close>

lemma searchNotCut_holds:
  assumes "validDate (nextOccurrence r)" and "validDate (startDate r)"
  shows "searchNotCut r"
proof (rule ccontr)
  assume n: "\<not> searchNotCut r"
  define P where "P = clampToStart (nextOccurrence r) r"
  have vP: "validDate P" and sP: "getTime (startDate r) \<le> getTime P"
    using assms by (simp_all add: P_def clampToStart_def)
  have "findNextValidOccurrence (nextOccurrence r) r k = 
          (if afterEnd P (endDate r) then None else findLoop r k P 0)" for k
    by (simp add: findNextValidOccurrence_def P_def clampToStart_def)
  with n have "findLoop r (100 + 1) P 0 \<noteq> findLoop r 100 P 0"
    by (auto simp: searchNotCut_def split: if_splits)
  from findLoop_one_more[OF _ this]
  have "isDateValidOccurrence (iterNext r 100 P) r" 
       "\<forall>j<100. \<not> isDateValidOccurrence (iterNext r j P) r" by simp_all
  with chain_hits[OF vP sP, of 100] show False by auto
qed

section \<open>A processed series is settled\<close>

lemma settled_skip:
  "\<not> isActive r \<or> getTime (nextOccurrence r) > getTime (effectiveEndDate 0 r target) \<Longrightarrow>
   settled 0 rejects target m st r"
  by (auto simp: settled_def processRecurring_utc Let_def)

lemma settled_selfHeal:
  assumes "\<not> isDateValidOccurrence (nextOccurrence r) r"
    and "\<forall>nv. findNextValidOccurrence (nextOccurrence r) r 100 = Some nv \<longrightarrow> 
            getTime nv > getTime (effectiveEndDate 0 r target)"
  shows "settled 0 rejects target m st r"
  using assms by (auto simp: settled_def processRecurring_utc Let_def split: option.splits)

lemma settled_replay:
  assumes reach: "walkReaches 0 rejects r (effectiveEndDate 0 r target) m (walkStart g v) t" 
    and inv: "walkInv r (walkStart g v)"
    and nowarn: "warnings (walk 0 rejects r (effectiveEndDate 0 r target) m (walkStart g v)) = warnings g"
    and r': "r' = r\<lparr>nextOccurrence := nextOccurrence r'\<rparr>"
    and sel: "(isDateValidOccurrence (nextOccurrence r') r \<and> currentDate t = nextOccurrence r') \<or>
       (\<not> isDateValidOccurrence (nextOccurrence r') r \<and> 
        findNextValidOccurrence (nextOccurrence r') r 100 = Some (currentDate t))"
    and cov: "covers 0 r (store (walk 0 rejects r (effectiveEndDate 0 r target) m (walkStart g v))) st"
  shows "settled 0 rejects target m st r'"
  unfolding settled_def
proof (intro allI impI)
  fix g2 :: GenState assume c2: "covers 0 r' st (store g2)"
  define e where "e = effectiveEndDate 0 r target"
  define d where "d = currentDate t"
  define P where "P = nextOccurrence r'"
  have r'd: "r' = r\<lparr>nextOccurrence := P\<rparr>" using r' by (simp add: P_def)
  have e': "effectiveEndDate 0 r' target = e" by (subst r'd) (simp add: e_def)
  have v': "isDateValidOccurrence c r' = isDateValidOccurrence c r" for c by (subst r'd) simp
  have f': "findNextValidOccurrence c r' n = findNextValidOccurrence c r n" for c n by (subst r'd) simp
  have w': "\<And>s. walk 0 rejects r' e m s = walk 0 rejects r e m s" by (subst r'd) simp
  have c2': "covers 0 r st (store g2)" using c2 by (subst (asm) r'd) simp
  note reach' = reach[folded e_def]
  have it: "walkInv r t" by (rule reaches_inv[OF reach' inv])
  have wt: "walk 0 rejects r e m t = walk 0 rejects r e m (walkStart g v)"
    using reaches_walk[OF reach'] by simp
  have nw: "warnings (walk 0 rejects r e m t) = warnings t"
    using reaches_warnings[OF reach' inv] nowarn wt by (simp add: e_def)
  have cv: "covers 0 r (store (walk 0 rejects r e m t)) (store (walkStart g2 d))"
    using covers_trans[OF cov[folded e_def] c2'] wt by simp
  have cnt: "m \<le> processedCount t \<longrightarrow> m \<le> processedCount (walkStart g2 d)"
    using reaches_count[OF reach' inv] by auto
  have pc: "processedCount (walkStart g2 d) \<le> processedCount t"
    using reaches_count[OF reach' inv] by auto
  from walk_replay[OF nw it cv _ pc cnt]
  have rep: "created (walk 0 rejects r e m (walkStart g2 d)) = created g2"
    "store (walk 0 rejects r e m (walkStart g2 d)) = store g2" by (simp_all add: d_def)
  show "created (processRecurring 0 rejects target m g2 r') = created g2 \<and>
        transactions (store (processRecurring 0 rejects target m g2 r')) = transactions (store g2)"
  proof (cases "isActive r' \<and> \<not> getTime P > getTime e \<and> \<not> getTime d > getTime e")
    case False
    then show ?thesis using sel
      by (auto simp: processRecurring_utc Let_def e' v' f' d_def P_def)
  next
    case True
    then have "processRecurring 0 rejects target m g2 r' = catchUp 0 rejects e m r' d g2"
      using sel by (auto simp: processRecurring_utc Let_def e' v' f' d_def P_def)
    then show ?thesis using rep by (simp add: catchUp_fields w')
  qed
qed

lemma processRecurring_settles:
  assumes wf: "validDate (nextOccurrence r)" "validDate (startDate r)"
    and nowarn: "warnings (processRecurring 0 rejects target m g r) = warnings g"
  shows "\<exists>p. recurringTransactions (store (processRecurring 0 rejects target m g r)) =
                pointerRows r p (recurringTransactions (store g)) \<and>
             settled 0 rejects target m (store (processRecurring 0 rejects target m g r))
               (case p of None \<Rightarrow> r | Some d \<Rightarrow> r\<lparr>nextOccurrence := d\<rparr>)"
proof (cases rule: processRecurring_cases_utc[where r = r and target = target and rejects = rejects and m = m])
  case inactive
  then show ?thesis 
    by (intro exI[of _ None]) (simp add: pointerRows_def settled_skip)
next
  case notDue
  then show ?thesis 
    by (intro exI[of _ None]) (simp add: pointerRows_def settled_skip)
next
  case selfHeal
  define P where "P = nextOccurrence r"
  define P' where "P' = calculateNextOccurrence P (frequency r)"
  define e where "e = effectiveEndDate 0 r target"
  define r' where "r' = r\<lparr>nextOccurrence := P'\<rparr>"
  have cut: "findNextValidOccurrence P r 101 = findNextValidOccurrence P r 100"
    using searchNotCut_holds[OF wf] selfHeal(3) by (simp add: searchNotCut_def P_def)
  have far: "\<forall>nv. findNextValidOccurrence P r 100 = Some nv \<longrightarrow> getTime nv > getTime e"
    using selfHeal(4) by (simp add: P_def e_def)
  have "settled 0 rejects target m st r'" for st
  proof (cases "getTime P' > getTime e")
    case True
    then show ?thesis by (intro settled_skip) (simp add: r'_def e_def)
  next
    case False
    then have ae: "\<not> afterEnd P' (endDate r)" 
      by (intro effectiveEndDate_afterEnd[of _ _ target]) (simp add: e_def)
    show ?thesis
    proof (cases "getTime (startDate r) \<le> getTime P")
      case True
      note sh = selfHeal_next[OF wf(1)[folded P_def] True selfHeal(3)[folded P_def] cut
          ae[unfolded P'_def], folded P'_def]
      have nv: "\<not> isDateValidOccurrence P' r"
      proof
        assume "isDateValidOccurrence P' r"
        from sh(1)[OF this] far False show False by simp
      qed
      from sh(2)[OF nv] far 
      have "\<forall>nv. findNextValidOccurrence P' r 100 = Some nv \<longrightarrow> getTime nv > getTime e" by simp
      with nv show ?thesis by (intro settled_selfHeal) (simp_all add: r'_def e_def)
    next
      case before: False
      have clamp: "findNextValidOccurrence c r 100 = 
                     (if afterEnd (startDate r) (endDate r) then None 
                      else findLoop r 100 (startDate r) 0)" 
        if "getTime c < getTime (startDate r)" for c
        using that by (simp add: findNextValidOccurrence_def)
      have lt: "getTime P' < getTime (startDate r)"
      proof (rule ccontr)
        assume "\<not> getTime P' < getTime (startDate r)"
        then have le: "getTime (startDate r) \<le> getTime P'" by simp
        with ae have ns: "\<not> afterEnd (startDate r) (endDate r)"
          by (auto simp: afterEnd_def split: option.splits)
        from valid_start[OF wf(2) ns] have "findLoop r 100 (startDate r) 0 = Some (startDate r)"
          by (subst findLoop.simps) simp
        with clamp[of P] before ns far have "getTime e < getTime (startDate r)" by simp
        with le False show False by simp
      qed
      then have nv: "\<not> isDateValidOccurrence P' r" by (simp add: isDateValidOccurrence_def)
      from clamp[OF lt] clamp[of P] before far
      have "\<forall>nv. findNextValidOccurrence P' r 100 = Some nv \<longrightarrow> getTime nv > getTime e" by simp
      with nv show ?thesis by (intro settled_selfHeal) (simp_all add: r'_def e_def)
    qed
  qed
  then show ?thesis using selfHeal(5)
    by (intro exI[of _ "Some P'"]) 
       (simp add: pointerRows_def rows_pointer_update r'_def P'_def P_def)
next
  case (catchUp v)
  define e where "e = effectiveEndDate 0 r target"
  define f where "f = walk 0 rejects r e m (walkStart g v)"
  define p where "p = nextOccurrenceToStore 0 r e f"
  have pr: "processRecurring 0 rejects target m g r = catchUp 0 rejects e m r v g"
    using catchUp(5) by (simp add: e_def)
  have nw: "warnings f = warnings g" using nowarn by (simp add: pr catchUp_fields f_def)
  have vv: "isDateValidOccurrence v r" 
    using catchUp(3) by (auto dest: findNextValidOccurrence_valid)
  have vd: "validDate v" "getTime (startDate r) \<le> getTime v"
    using catchUp(3) wf findNextValidOccurrence_Some(4)[of "nextOccurrence r" r 100 v]
      valid_in_window[OF vv] by auto
  then have inv: "walkInv r (walkStart g v)" by (simp add: walkInv_def)
  have rows: "recurringTransactions (store (processRecurring 0 rejects target m g r)) =
                pointerRows r p (recurringTransactions (store g))"
    by (simp add: pr catchUp_rows p_def f_def)
  have cov: "covers 0 r (store f) (store (processRecurring 0 rejects target m g r))"
    by (rule covers_transactions_eq) (simp add: pr catchUp_fields f_def)
  have "settled 0 rejects target m (store (processRecurring 0 rejects target m g r))
               (case p of None \<Rightarrow> r | Some d \<Rightarrow> r\<lparr>nextOccurrence := d\<rparr>)"
  proof (cases p)
    case None
    from settled_replay[where r = r and r' = r and g = g and v = v and rejects = rejects and target = target
            and m = m and t = "walkStart g v", OF walkReaches.here inv nw[unfolded f_def e_def] _ _ cov[unfolded f_def e_def]] 
         catchUp(3) None
    show ?thesis by simp
  next
    case (Some d)
    show ?thesis
    proof (cases "getTime d > getTime e")
      case True
      then show ?thesis using Some by (simp add: settled_skip e_def)
    next
      case False
      then have le: "getTime d \<le> getTime e" by simp
      from stored_pointer_reached[OF nw[unfolded f_def] vd vv Some[unfolded p_def f_def] le]
      obtain t where t: "walkReaches 0 rejects r e m (walkStart g v) t" "currentDate t = d" by blast
      have "isDateValidOccurrence d r" using Some nextOccurrenceToStore_valid[of 0] by (simp add: p_def)
      with settled_replay[where r = r and r' = "r\<lparr>nextOccurrence := d\<rparr>" and g = g and v = v 
            and rejects = rejects and target = target and m = m, 
            OF t(1)[unfolded e_def] inv nw[unfolded f_def e_def] _ _ cov[unfolded f_def e_def]] t(2) Some
      show ?thesis by simp
    qed
  qed
  with rows show ?thesis by blast
qed

section \<open>The ledger and the warnings only grow\<close>

lemma walk_warnings_extends: "\<exists>ws. warnings (walk 0 rejects r e m s) = warnings s @ ws"
proof (induction rejects r e m s rule: walk_induct_utc)
  case (stop rejects r e m s) then show ?case by (simp add: walk_stop)
next
  case (break rejects r e m s s')
  then show ?case by (auto simp: walk_break walkBody_utc Let_def split: prod.splits if_splits option.splits)
next
  case (limit rejects r e m s s')
  then show ?case by (auto simp: walk_limit walkBody_utc Let_def split: prod.splits if_splits option.splits)
next
  case (continue rejects r e m s s')
  then show ?case by (auto simp: walk_continue walkBody_utc Let_def split: prod.splits if_splits option.splits)
qed

lemma processRecurring_extends:
  "\<exists>ys ws. transactions (store (processRecurring 0 rejects target m g r)) = transactions (store g) @ ys \<and>
           warnings (processRecurring 0 rejects target m g r) = warnings g @ ws"
proof (cases rule: processRecurring_cases_utc[where r = r and target = target and rejects = rejects and m = m])
  case (catchUp v)
  from walk_extends[of rejects r "effectiveEndDate 0 r target" m "walkStart g v"]
       walk_warnings_extends[of rejects r "effectiveEndDate 0 r target" m "walkStart g v"]
  show ?thesis by (simp add: catchUp(5) catchUp_fields)
qed simp_all

lemma foldl_processRecurring_extends:
  "\<exists>ys ws. transactions (store (foldl (processRecurring 0 rejects target m) g rs)) = transactions (store g) @ ys \<and>
           warnings (foldl (processRecurring 0 rejects target m) g rs) = warnings g @ ws"
proof (induction rs arbitrary: g)
  case Nil then show ?case by simp
next
  case (Cons r rs)
  from processRecurring_extends[of rejects target m g r] obtain ys ws where
    1: "transactions (store (processRecurring 0 rejects target m g r)) = transactions (store g) @ ys"
       "warnings (processRecurring 0 rejects target m g r) = warnings g @ ws" by blast
  from Cons[of "processRecurring 0 rejects target m g r"] obtain ys' ws' where
    2: "transactions (store (foldl (processRecurring 0 rejects target m) (processRecurring 0 rejects target m g r) rs)) = 
          transactions (store (processRecurring 0 rejects target m g r)) @ ys'"
       "warnings (foldl (processRecurring 0 rejects target m) (processRecurring 0 rejects target m g r) rs) = 
          warnings (processRecurring 0 rejects target m g r) @ ws'" by blast
  from 1 2 show ?case by simp
qed

lemma settled_mono:
  "settled 0 rejects target m st r \<Longrightarrow> covers 0 r st st' \<Longrightarrow> settled 0 rejects target m st' r"
  unfolding settled_def by (blast intro: covers_trans)

section \<open>The first run settles every series it is given\<close>

lemma pointerRows_ident [simp]: "map ident (pointerRows r p rows) = map ident rows"
  by (cases p) (simp_all add: pointerRows_def comp_def)

lemma ident_unique:
  "distinct (map ident rows) \<Longrightarrow> x \<in> set rows \<Longrightarrow> y \<in> set rows \<Longrightarrow> ident x = ident y \<Longrightarrow> x = y"
  by (meson distinct_map inj_onD)

lemma pointerRows_set:
  assumes "distinct (map ident rows)" and "r \<in> set rows" and "x \<in> set (pointerRows r p rows)"
  shows "(x \<in> set rows \<and> ident x \<noteq> ident r) \<or> x = (case p of None \<Rightarrow> r | Some d \<Rightarrow> r\<lparr>nextOccurrence := d\<rparr>)"
proof (cases p)
  case None
  with assms ident_unique[OF assms(1), of x r] show ?thesis by (auto simp: pointerRows_def)
next
  case (Some d)
  from assms(3) Some obtain y where y: "y \<in> set rows" 
    "x = (if ident y = ident r then y\<lparr>nextOccurrence := d\<rparr> else y)" by (auto simp: pointerRows_def)
  show ?thesis
  proof (cases "ident y = ident r")
    case True
    with assms(1,2) y(1) have "y = r" by (meson distinct_map inj_onD)
    with y True Some show ?thesis by simp
  next
    case False
    with y show ?thesis by simp
  qed
qed

lemma pointerRows_other:
  "x \<in> set rows \<Longrightarrow> ident x \<noteq> ident r \<Longrightarrow> x \<in> set (pointerRows r p rows)"
  by (cases p) (auto simp: pointerRows_def)

lemma first_run_settles:
  assumes "distinct (map ident (recurringTransactions (store g)))"
    and "distinct (map ident rs)" and "set rs \<subseteq> set (recurringTransactions (store g))"
    and "\<forall>r\<in>set rs. validDate (nextOccurrence r) \<and> validDate (startDate r)"
    and "warnings (foldl (processRecurring 0 rejects target m) g rs) = warnings g"
    and "x \<in> set (recurringTransactions (store (foldl (processRecurring 0 rejects target m) g rs)))"
  shows "(x \<in> set (recurringTransactions (store g)) \<and> ident x \<notin> ident ` set rs) \<or>
         settled 0 rejects target m (store (foldl (processRecurring 0 rejects target m) g rs)) x"
  using assms
proof (induction rs arbitrary: g)
  case Nil
  then show ?case by simp
next
  case (Cons r rs)
  define g' where "g' = processRecurring 0 rejects target m g r"
  define gf where "gf = foldl (processRecurring 0 rejects target m) g' rs"
  from processRecurring_extends[of rejects target m g r] obtain ys ws where
    1: "warnings g' = warnings g @ ws" by (auto simp: g'_def)
  from foldl_processRecurring_extends[of rejects target m g' rs] obtain ys' ws' where
    2: "transactions (store gf) = transactions (store g') @ ys'" 
       "warnings gf = warnings g' @ ws'" by (auto simp: gf_def)
  from Cons.prems(5) 1 2 have nw: "warnings g' = warnings g" "warnings gf = warnings g'" 
    by (simp_all add: g'_def gf_def)
  from Cons.prems(3) have rin: "r \<in> set (recurringTransactions (store g))" by simp
  from Cons.prems(4) have wf: "validDate (nextOccurrence r)" "validDate (startDate r)" 
    by simp_all
  from processRecurring_settles[OF wf nw(1)[unfolded g'_def]] obtain p where
    p: "recurringTransactions (store g') = pointerRows r p (recurringTransactions (store g))"
       "settled 0 rejects target m (store g') (case p of None \<Rightarrow> r | Some d \<Rightarrow> r\<lparr>nextOccurrence := d\<rparr>)"
    by (auto simp: g'_def)
  have d': "distinct (map ident (recurringTransactions (store g')))" 
    using Cons.prems(1) by (simp add: p(1))
  have sub': "set rs \<subseteq> set (recurringTransactions (store g'))"
  proof
    fix y assume y: "y \<in> set rs"
    with Cons.prems(2) have "ident y \<noteq> ident r" by (metis distinct.simps(2) imageI list.simps(9) set_map)
    moreover from y Cons.prems(3) have "y \<in> set (recurringTransactions (store g))" by auto
    ultimately show "y \<in> set (recurringTransactions (store g'))" 
      unfolding p(1) by (rule pointerRows_other[rotated])
  qed
  from Cons.prems(2) have d2: "distinct (map ident rs)" by simp
  from Cons.prems(4) have wf2: "\<forall>r\<in>set rs. validDate (nextOccurrence r) \<and> 
     validDate (startDate r)" by simp
  from Cons.prems(6) have xin: "x \<in> set (recurringTransactions (store gf))" by (simp add: gf_def g'_def)
  from Cons.IH[OF d' d2 sub' wf2 nw(2)[unfolded gf_def] xin[unfolded gf_def]]
  have "(x \<in> set (recurringTransactions (store g')) \<and> ident x \<notin> ident ` set rs) \<or>
        settled 0 rejects target m (store gf) x" by (simp add: gf_def)
  then show ?case
  proof
    assume a: "x \<in> set (recurringTransactions (store g')) \<and> ident x \<notin> ident ` set rs"
    from pointerRows_set[OF Cons.prems(1) rin a[THEN conjunct1, unfolded p(1)]]
    show ?thesis
    proof
      assume "x \<in> set (recurringTransactions (store g)) \<and> ident x \<noteq> ident r"
      with a show ?thesis by simp
    next
      assume "x = (case p of None \<Rightarrow> r | Some d \<Rightarrow> r\<lparr>nextOccurrence := d\<rparr>)"
      with p(2) have "settled 0 rejects target m (store g') x" by simp
      from settled_mono[OF this covers_append[OF 2(1)]] show ?thesis by (simp add: gf_def g'_def)
    qed
  next
    assume "settled 0 rejects target m (store gf) x"
    then show ?thesis by (simp add: gf_def g'_def)
  qed
qed

section \<open>A run over settled series\<close>

lemma second_run:
  assumes "\<forall>x\<in>set rs. settled 0 rejects target m st x" and "\<forall>x\<in>set rs. covers 0 x st (store g)"
  shows "created (foldl (processRecurring 0 rejects target m) g rs) = created g \<and>
         transactions (store (foldl (processRecurring 0 rejects target m) g rs)) = transactions (store g)"
  using assms
proof (induction rs arbitrary: g)
  case Nil then show ?case by simp
next
  case (Cons r rs)
  define g' where "g' = processRecurring 0 rejects target m g r"
  from Cons.prems have "settled 0 rejects target m st r" "covers 0 r st (store g)" by simp_all
  then have 1: "created g' = created g" "transactions (store g') = transactions (store g)"
    by (simp_all add: settled_def g'_def)
  have "\<forall>x\<in>set rs. covers 0 x st (store g')"
  proof
    fix x assume "x \<in> set rs"
    with Cons.prems(2) have "covers 0 x st (store g)" by simp
    from covers_trans[OF this covers_transactions_eq[OF 1(2)]] show "covers 0 x st (store g')" .
  qed
  with Cons.IH[of g'] Cons.prems(1) 1 show ?case by (simp add: g'_def)
qed

lemma due_set:
  "set (getDueRecurringTransactions target st) =
   {r \<in> set (recurringTransactions st). isActive r \<and> getTime (nextOccurrence r) \<le> getTime target \<and>
      (case endDate r of None \<Rightarrow> True | Some e \<Rightarrow> getTime e \<ge> getTime target)}"
  by (auto simp: getDueRecurringTransactions_def)

lemma due_distinct:
  "distinct (map ident (recurringTransactions st)) \<Longrightarrow> 
   distinct (map ident (getDueRecurringTransactions target st))"
  unfolding getDueRecurringTransactions_def
  by (metis (no_types, lifting) distinct_map distinct_filter distinct_sort inj_on_subset set_filter set_sort
      mem_Collect_eq subsetI)

section \<open>The catch-up loop of a daily series without entries\<close>

lemma getTime_daily: "getTime (calculateNextOccurrence d Daily) = getTime d + 1"
  unfolding calculateNextOccurrence.simps newDate_props(1) by (simp add: getTime_def makeDay_def)

lemma daily_valid:
  "frequency r = Daily \<Longrightarrow> endDate r = None \<Longrightarrow> 
   isDateValidOccurrence d r = (getTime (startDate r) \<le> getTime d)"
  by (auto simp: isDateValidOccurrence_def afterEnd_def)

lemma getTime_iterNext_daily:
  "frequency r = Daily \<Longrightarrow> getTime (iterNext r k c) = getTime c + int k"
  by (induction k arbitrary: c) (simp_all add: getTime_daily del: calculateNextOccurrence.simps)

lemma daily_walk:
  assumes daily: "frequency r = Daily" "endDate r = None" and acc: "\<forall>x. \<not> rejects x"
    and inv: "getTime (startDate r) \<le> getTime (currentDate s)"
    and fresh: "\<forall>t\<in>set (transactions (store s)). getTime (date t) < getTime (currentDate s)"
    and n: "n = nat (min (m - processedCount s) (getTime e - getTime (currentDate s) + 1))"
  shows "created (walk 0 rejects r e m s) = created s + int n \<and>
         currentDate (walk 0 rejects r e m s) = iterNext r n (currentDate s) \<and>
         lastProcessedDate (walk 0 rejects r e m s) = 
           (if n = 0 then lastProcessedDate s else Some (iterNext r (n - 1) (currentDate s))) \<and>
         processedCount (walk 0 rejects r e m s) = processedCount s + int n \<and>
         warnings (walk 0 rejects r e m s) = 
           (if 0 < n \<and> processedCount s + int n = m then warnings s @ [ident r] else warnings s) \<and>
         (\<forall>t\<in>set (transactions (store (walk 0 rejects r e m s))). 
            getTime (date t) < getTime (currentDate s) + int n)"
  using assms
proof (induction rejects r e m s arbitrary: n rule: walk_induct_utc)
  case (stop rejects r e m s)
  then have "n = 0" by (auto simp: walkGuard_def)
  with stop show ?case by (simp add: walk_stop)
next
  case (break rejects r e m s s')
  have "\<not> hasEntry 0 r (currentDate s) (store s)" using break.prems(5) by (auto simp: hasEntry_iff)
  with break.hyps(2) break.prems(1-4) have False
    by (simp add: walkBody_eq daily_valid afterEnd_def)
  then show ?case ..
next
  case (limit rejects r e m s s')
  have ne: "\<not> hasEntry 0 r (currentDate s) (store s)" using limit.prems(5) by (auto simp: hasEntry_iff)
  from limit.hyps(2) limit.prems(1-4) ne have s': "s' = 
        s\<lparr>store := (store s)\<lparr>transactions := transactions (store s) @ 
                         [generatedEntry r (currentDate s) (nextId (store s))],
                       nextId := nextId (store s) + 1\<rparr>,
           created := created s + 1,
           lastProcessedDate := Some (currentDate s),
           currentDate := calculateNextOccurrence (currentDate s) (frequency r),
           processedCount := processedCount s + 1\<rparr>"
    by (simp add: walkBody_eq daily_valid afterEnd_def)
  from limit.hyps(1,3) have "n = 1" "processedCount s + 1 = m" 
    unfolding limit.prems(6) by (auto simp: walkGuard_def s')
  with limit.prems(5) show ?case
    by (simp add: walk_limit[OF limit.hyps] s' generatedEntry_def del: calculateNextOccurrence.simps)
       (auto simp: less_imp_le)
next
  case (continue rejects r e m s s')
  have ne: "\<not> hasEntry 0 r (currentDate s) (store s)" using continue.prems(5) by (auto simp: hasEntry_iff)
  from continue.hyps(2) continue.prems(1-4) ne have s': "s' = 
        s\<lparr>store := (store s)\<lparr>transactions := transactions (store s) @ 
                         [generatedEntry r (currentDate s) (nextId (store s))],
                       nextId := nextId (store s) + 1\<rparr>,
           created := created s + 1,
           lastProcessedDate := Some (currentDate s),
           currentDate := calculateNextOccurrence (currentDate s) (frequency r),
           processedCount := processedCount s + 1\<rparr>"
    by (simp add: walkBody_eq daily_valid afterEnd_def)
  have cd: "getTime (currentDate s') = getTime (currentDate s) + 1" 
    using continue.prems(1) by (simp add: s' getTime_daily del: calculateNextOccurrence.simps)
  define k where "k = nat (min (m - processedCount s') (getTime e - getTime (currentDate s') + 1))"
  have nk: "n = Suc k" using continue.hyps(1,3) unfolding continue.prems(6) k_def cd 
    by (auto simp: walkGuard_def s')
  have inv': "getTime (startDate r) \<le> getTime (currentDate s')" using continue.prems(4) cd by simp
  have fresh': "\<forall>t\<in>set (transactions (store s')). getTime (date t) < getTime (currentDate s')"
    using continue.prems(5) unfolding cd by (auto simp: s' generatedEntry_def)
  note IH = continue.IH[OF continue.prems(1-3) inv' fresh' k_def]
  have pc: "processedCount s' = processedCount s + 1" by (simp add: s')
  have cr: "created s' = created s + 1" by (simp add: s')
  have cur: "iterNext r k (currentDate s') = iterNext r n (currentDate s)" by (simp add: nk s')
  have ws: "warnings s' = warnings s" by (simp add: s')
  have lp: "(if k = 0 then lastProcessedDate s' else Some (iterNext r (k - 1) (currentDate s'))) = 
            Some (iterNext r (n - 1) (currentDate s))"
    by (cases k) (simp_all add: nk s')
  have lt: "processedCount s + 1 < m" using continue.hyps(3) by (simp add: s')
  show ?case unfolding walk_continue[OF continue.hyps(1-3)] using IH lt
    unfolding pc cr cur ws lp cd by (auto simp: nk)
qed

lemma daily_processRecurring:
  assumes daily: "frequency r = Daily" "endDate r = None" and act: "isActive r" 
    and acc: "\<forall>x. \<not> rejects x"
    and st: "getTime (startDate r) \<le> getTime (nextOccurrence r)" 
    and due: "getTime (nextOccurrence r) \<le> getTime target"
    and fresh: "\<forall>t\<in>set (transactions (store g)). getTime (date t) < getTime (nextOccurrence r)"
    and m: "0 < m" and n: "n = nat (min m (getTime target - getTime (nextOccurrence r) + 1))"
    and rows: "recurringTransactions (store g) = [r]"
  shows "created (processRecurring 0 rejects target m g r) = created g + int n"
    and "recurringTransactions (store (processRecurring 0 rejects target m g r)) = 
           [r\<lparr>nextOccurrence := iterNext r n (nextOccurrence r)\<rparr>]"
    and "\<forall>t\<in>set (transactions (store (processRecurring 0 rejects target m g r))). 
           getTime (date t) < getTime (nextOccurrence r) + int n"
    and "warnings (processRecurring 0 rejects target m g r) = 
           (if int n = m then warnings g @ [ident r] else warnings g)"
proof -
  define P where "P = nextOccurrence r"
  define f where "f = walk 0 rejects r target m (walkStart g P)"
  have e: "effectiveEndDate 0 r target = target" using daily by (simp add: effectiveEndDate_utc)
  have v: "isDateValidOccurrence P r" using daily st by (simp add: daily_valid P_def)
  have pr: "processRecurring 0 rejects target m g r = catchUp 0 rejects target m r P g"
    using act due v by (simp add: processRecurring_utc Let_def e P_def)
  have n0: "0 < n" using m due unfolding n by simp
  have n': "n = nat (min (m - processedCount (walkStart g P)) 
                  (getTime target - getTime (currentDate (walkStart g P)) + 1))"
    by (simp add: n P_def)
  from daily_walk[OF daily acc _ _ n'] st fresh n0
  have w: "created f = created g + int n" "lastProcessedDate f = Some (iterNext r (n - 1) P)"
    "warnings f = (if int n = m then warnings g @ [ident r] else warnings g)"
    "\<forall>t\<in>set (transactions (store f)). getTime (date t) < getTime P + int n"
    by (simp_all add: f_def P_def)
  have "calculateNextOccurrence (iterNext r (n - 1) P) (frequency r) = iterNext r n P"
    using n0 iterNext_Suc_right[of r "n - 1" P] by simp
  moreover have "isDateValidOccurrence (iterNext r n P) r"
    using daily st by (simp add: daily_valid getTime_iterNext_daily P_def)
  ultimately have p: "nextOccurrenceToStore 0 r target f = Some (iterNext r n P)"
    using w(2) by (simp add: nextOccurrenceToStore_utc Let_def del: calculateNextOccurrence.simps)
  show "created (processRecurring 0 rejects target m g r) = created g + int n"
    using w(1) by (simp add: pr catchUp_fields f_def)
  show "recurringTransactions (store (processRecurring 0 rejects target m g r)) = 
           [r\<lparr>nextOccurrence := iterNext r n (nextOccurrence r)\<rparr>]"
    using p rows by (simp add: pr catchUp_rows pointerRows_def f_def P_def)
  show "\<forall>t\<in>set (transactions (store (processRecurring 0 rejects target m g r))). 
           getTime (date t) < getTime (nextOccurrence r) + int n"
    using w(4) by (simp add: pr catchUp_fields f_def P_def)
  show "warnings (processRecurring 0 rejects target m g r) = 
           (if int n = m then warnings g @ [ident r] else warnings g)"
    using w(3) by (simp add: pr catchUp_fields f_def)
qed

section \<open>Generation run twice\<close>

text \<open>
  C3 (as stated: for every store and every target date the second run creates nothing).
  The daily series of \<open>dailyStore\<close> starts on 2026-01-01 and has generated nothing. The first
  \<^verbatim>\<open>generate("2027-01-01")\<close>, with the default limit of 365, creates the 365 entries of 2026,
  reaches the catch-up limit, prints the warning for the series and leaves the pointer on
  2027-01-01; the second run with the same date creates the entry of 2027-01-01.

  Outside UTC the second run repeats the first even without a limit: the search for an existing
  entry asks for the local midnight of the date, and the entries are stored at UTC midnight.
  In UTC+2 and in UTC-5 the series that ends on 2026-01-05, generated to 2026-01-05, gets its
  five entries in the first run and five more in the second.
\<close>

theorem second_run_counterexample:
  "created (runGenerate acceptAll (ymd 2027 1 1) dailyStore) = 365 \<and>
   warnings (runGenerate acceptAll (ymd 2027 1 1) dailyStore) = [0] \<and>
   created (runGenerate acceptAll (ymd 2027 1 1) 
              (store (runGenerate acceptAll (ymd 2027 1 1) dailyStore))) = 1 \<and>
   created (runGenerateIn utcPlus2 acceptAll (ymd 2026 1 5) endedStore) = 5 \<and>
   warnings (runGenerateIn utcPlus2 acceptAll (ymd 2026 1 5) endedStore) = [] \<and>
   created (runGenerateIn utcPlus2 acceptAll (ymd 2026 1 5)
              (store (runGenerateIn utcPlus2 acceptAll (ymd 2026 1 5) endedStore))) = 5 \<and>
   created (runGenerateIn utcMinus5 acceptAll (ymd 2026 1 5) endedStore) = 5 \<and>
   warnings (runGenerateIn utcMinus5 acceptAll (ymd 2026 1 5) endedStore) = [] \<and>
   created (runGenerateIn utcMinus5 acceptAll (ymd 2026 1 5)
              (store (runGenerateIn utcMinus5 acceptAll (ymd 2026 1 5) endedStore))) = 5"
proof -
  define T where "T = ymd 2027 1 1"
  define r where "r = dailySeries"
  define g0 where "g0 = \<lparr>created = 0, skipped = 0, store = dailyStore, warnings = []\<rparr>"
  define g1 where "g1 = processRecurring 0 acceptAll T 365 g0 r"
  define r1 where "r1 = r\<lparr>nextOccurrence := iterNext r 365 (nextOccurrence r)\<rparr>"
  define g0' where "g0' = \<lparr>created = 0, skipped = 0, store = store g1, warnings = []\<rparr>"
  have parse: "parseDate (wire T) = Inr T" 
    by (rule parseDate_wire) (simp_all add: T_def ymd_def validDate_def daysInMonth_def)
  have days: "getTime T = getTime (nextOccurrence r) + 365" unfolding T_def r_def by code_simp
  have r: "frequency r = Daily" "endDate r = None" "isActive r" "startDate r = nextOccurrence r"
    "ident r = 0"
    by (simp_all add: r_def dailySeries_def)
  have acc: "\<forall>x. \<not> acceptAll x" by (simp add: acceptAll_def)
  have due1: "getDueRecurringTransactions T dailyStore = [r]"
    using days r(2,3) by (simp add: getDueRecurringTransactions_def dailyStore_def r_def[symmetric])
  have run1: "runGenerate acceptAll T dailyStore = g1"
    by (simp add: runGenerate_def runGenerateIn_def generateTransactionsFromRecurring_def parse due1 g1_def g0_def)
  have rows0: "recurringTransactions (store g0) = [r]" by (simp add: g0_def dailyStore_def r_def)
  have fresh0: "\<forall>t\<in>set (transactions (store g0)). getTime (date t) < getTime (nextOccurrence r)"
    by (simp add: g0_def dailyStore_def)
  have n1: "(365::nat) = nat (min 365 (getTime T - getTime (nextOccurrence r) + 1))" 
    using days by simp
  note one = daily_processRecurring[OF r(1-3) acc _ _ fresh0 _ n1 rows0, folded g1_def r1_def]
  have g1: "created g1 = 365" "recurringTransactions (store g1) = [r1]" "warnings g1 = [0]"
    "\<forall>t\<in>set (transactions (store g1)). getTime (date t) < getTime (nextOccurrence r) + 365"
    using one days by (simp_all add: r(4,5) g0_def)
  have p1: "getTime (nextOccurrence r1) = getTime T" 
    using days by (simp add: r1_def getTime_iterNext_daily r(1))
  have r1: "frequency r1 = Daily" "endDate r1 = None" "isActive r1" 
    "getTime (startDate r1) \<le> getTime (nextOccurrence r1)"
    using r days p1 by (simp_all add: r1_def)
  have due2: "getDueRecurringTransactions T (store g1) = [r1]"
    using p1 r1(2,3) by (simp add: getDueRecurringTransactions_def g1(2))
  have run2: "runGenerate acceptAll T (store g1) = processRecurring 0 acceptAll T 365 g0' r1"
    by (simp add: runGenerate_def runGenerateIn_def generateTransactionsFromRecurring_def parse due2 g0'_def)
  have rows1: "recurringTransactions (store g0') = [r1]" by (simp add: g0'_def g1(2))
  have fresh1: "\<forall>t\<in>set (transactions (store g0')). getTime (date t) < getTime (nextOccurrence r1)"
    using g1(4) p1 days by (simp add: g0'_def)
  have n2: "(1::nat) = nat (min 365 (getTime T - getTime (nextOccurrence r1) + 1))" 
    using p1 by simp
  from daily_processRecurring(1)[OF r1(1-3) acc r1(4) _ fresh1 _ n2 rows1] p1
  have "created (processRecurring 0 acceptAll T 365 g0' r1) = 1" by (simp add: g0'_def)
  moreover have "created (runGenerateIn utcPlus2 acceptAll (ymd 2026 1 5) endedStore) = 5"
    "warnings (runGenerateIn utcPlus2 acceptAll (ymd 2026 1 5) endedStore) = []"
    "created (runGenerateIn utcPlus2 acceptAll (ymd 2026 1 5)
                 (store (runGenerateIn utcPlus2 acceptAll (ymd 2026 1 5) endedStore))) = 5"
    "created (runGenerateIn utcMinus5 acceptAll (ymd 2026 1 5) endedStore) = 5"
    "warnings (runGenerateIn utcMinus5 acceptAll (ymd 2026 1 5) endedStore) = []"
    "created (runGenerateIn utcMinus5 acceptAll (ymd 2026 1 5)
                 (store (runGenerateIn utcMinus5 acceptAll (ymd 2026 1 5) endedStore))) = 5"
    by code_simp+
  ultimately show ?thesis using run1 run2 g1 by (simp add: T_def)
qed

text \<open>
  C3 (amended). When the process runs in UTC, in a store whose series have distinct
  identifiers, and calendar dates as their start dates and pointers: when a generation run
  has printed no catch-up-limit warning, a second run with the same target date and the
  same limit, against a store that rejects the same entries as before, creates nothing and
  leaves the ledger as it was.
\<close>

theorem second_run_creates_nothing:
  assumes dist: "distinct (map ident (recurringTransactions st))"
    and wf: "\<forall>r\<in>set (recurringTransactions st). validDate (nextOccurrence r) \<and> 
               validDate (startDate r)"
    and run1: "generateTransactionsFromRecurring 0 rejects targetDate m st = Inr g1"
    and nowarn: "warnings g1 = []"
    and run2: "generateTransactionsFromRecurring 0 rejects targetDate m (store g1) = Inr g2"
  shows "created g2 = 0 \<and> transactions (store g2) = transactions (store g1)"
proof -
  from run1 obtain target where t: "parseDate targetDate = Inr target"
    by (auto simp: generateTransactionsFromRecurring_def split: sum.splits)
  define g0 where "g0 = \<lparr>created = 0, skipped = 0, store = st, warnings = []\<rparr>"
  define due1 where "due1 = getDueRecurringTransactions target st"
  define due2 where "due2 = getDueRecurringTransactions target (store g1)"
  have g1: "g1 = foldl (processRecurring 0 rejects target m) g0 due1"
    using run1 t by (simp add: generateTransactionsFromRecurring_def g0_def due1_def)
  have g2: "g2 = foldl (processRecurring 0 rejects target m) 
                   \<lparr>created = 0, skipped = 0, store = store g1, warnings = []\<rparr> due2"
    using run2 t by (simp add: generateTransactionsFromRecurring_def due2_def)
  have sub: "set due1 \<subseteq> set (recurringTransactions (store g0))" 
    by (auto simp: due1_def due_set g0_def)
  have "\<forall>x\<in>set due2. settled 0 rejects target m (store g1) x"
  proof
    fix x assume x: "x \<in> set due2"
    then have xin: "x \<in> set (recurringTransactions (store g1))" by (simp add: due2_def due_set)
    have "(x \<in> set (recurringTransactions (store g0)) \<and> ident x \<notin> ident ` set due1) \<or>
         settled 0 rejects target m (store g1) x"
      unfolding g1
      by (rule first_run_settles[OF _ due_distinct[OF dist, of target, folded due1_def] sub _ _ xin[unfolded g1]])
         (use dist wf sub nowarn in \<open>auto simp: g0_def g1\<close>)
    then show "settled 0 rejects target m (store g1) x"
    proof
      assume a: "x \<in> set (recurringTransactions (store g0)) \<and> ident x \<notin> ident ` set due1"
      then have "x \<notin> set due1" by auto
      with a x have False by (auto simp: due1_def due2_def due_set g0_def)
      then show ?thesis ..
    qed
  qed
  from second_run[OF this, of "\<lparr>created = 0, skipped = 0, store = store g1, warnings = []\<rparr>"]
  show ?thesis by (simp add: g2)
qed

text \<open>
  The series that ends on 2026-01-05, caught up to its end date twice: the first run creates the
  five entries of 2026-01-01 to 2026-01-05 and, as no occurrence follows the end date, leaves the
  pointer on 2026-01-01, so the series is due again in the second run, which walks the same five
  dates, finds the entry of each and creates nothing.
\<close>

theorem second_run_creates_nothing_witness:
  "created (runGenerate acceptAll (ymd 2026 1 5) endedStore) = 5 \<and>
   warnings (runGenerate acceptAll (ymd 2026 1 5) endedStore) = [] \<and>
   map ident (getDueRecurringTransactions (ymd 2026 1 5)
                (store (runGenerate acceptAll (ymd 2026 1 5) endedStore))) = [0] \<and>
   skipped (runGenerate acceptAll (ymd 2026 1 5)
              (store (runGenerate acceptAll (ymd 2026 1 5) endedStore))) = 5 \<and>
   created (runGenerate acceptAll (ymd 2026 1 5)
              (store (runGenerate acceptAll (ymd 2026 1 5) endedStore))) = 0 \<and>
   transactions (store (runGenerate acceptAll (ymd 2026 1 5)
              (store (runGenerate acceptAll (ymd 2026 1 5) endedStore)))) =
   transactions (store (runGenerate acceptAll (ymd 2026 1 5) endedStore))"
proof -
  have t: "parseDate (wire (ymd 2026 1 5)) = Inr (ymd 2026 1 5)" by code_simp
  have g: "generateTransactionsFromRecurring 0 acceptAll (wire (ymd 2026 1 5)) 365 st =
      Inr (runGenerate acceptAll (ymd 2026 1 5) st)" for st
    by (simp add: generateTransactionsFromRecurring_def runGenerate_def runGenerateIn_def t)
  have d: "distinct (map ident (recurringTransactions endedStore))" by code_simp
  have wf: "\<forall>r\<in>set (recurringTransactions endedStore). validDate (nextOccurrence r) \<and> 
               validDate (startDate r)"
    by code_simp
  have c: "created (runGenerate acceptAll (ymd 2026 1 5) endedStore) = 5" by code_simp
  have w: "warnings (runGenerate acceptAll (ymd 2026 1 5) endedStore) = []" by code_simp
  have due: "map ident (getDueRecurringTransactions (ymd 2026 1 5)
                (store (runGenerate acceptAll (ymd 2026 1 5) endedStore))) = [0]" by code_simp
  have sk: "skipped (runGenerate acceptAll (ymd 2026 1 5)
              (store (runGenerate acceptAll (ymd 2026 1 5) endedStore))) = 5" by code_simp
  from second_run_creates_nothing[OF d wf g w g] c w due sk show ?thesis by simp
qed

end
